theory Spec2Isabelle
  imports Complex_Main "HOL-Library.Sublist" "HOL-Library.Multiset"
begin

section \<open>Python values and the builtins the selector uses\<close>

text \<open>
  \<^verbatim>\<open>ShowSelector\<close> keeps whatever \<^verbatim>\<open>json.load\<close> handed to it, so its fields are
  dynamically typed. A value is one of the six shapes a JSON document can have; a number
  is kept by its value (Python compares \<^verbatim>\<open>int\<close>, \<^verbatim>\<open>float\<close> and \<^verbatim>\<open>bool\<close> by value),
  non-finite floats are left out, and a \<^verbatim>\<open>dict\<close> is an association list read with
  \<^const>\<open>map_of\<close> whose keys are pairwise different. A string is the list of its code
  points, a character standing for the code point of its number, U+0000 to U+00FF;
  \<^verbatim>\<open>str.lower\<close> and \<^verbatim>\<open>str.strip\<close> are Python's on that range, where \<^verbatim>\<open>str.lower\<close>
  works code point by code point and stays in the range. Strings with code points
  beyond U+00FF are not modelled.
\<close>

datatype json =
    JNull
  | JBool bool
  | JNum rat
  | JStr string
  | JList "json list"
  | JObj "(string \<times> json) list"

datatype py_error =
    JSONDecodeError
  | KeyError
  | ValueError
  | TypeError
  | AttributeError
  | FileNotFoundError

text \<open>\<^verbatim>\<open>a == b\<close> on parsed JSON: numbers and booleans by value, lists pointwise,
  dictionaries key by key whatever their order.\<close>

fun py_eq :: "json \<Rightarrow> json \<Rightarrow> bool" where
  "py_eq JNull JNull = True"
| "py_eq (JBool a) (JBool b) = (a = b)"
| "py_eq (JBool a) (JNum n) = (n = (if a then 1 else 0))"
| "py_eq (JNum n) (JBool a) = (n = (if a then 1 else 0))"
| "py_eq (JNum m) (JNum n) = (m = n)"
| "py_eq (JStr s) (JStr t) = (s = t)"
| "py_eq (JList xs) (JList ys) = list_all2 py_eq xs ys"
| "py_eq (JObj a) (JObj b) =
     (length a = length b \<and>
      (\<forall>(k, v) \<in> set a. case map_of b k of None \<Rightarrow> False | Some w \<Rightarrow> py_eq v w))"
| "py_eq _ _ = False"

text \<open>The comparison \<^verbatim>\<open>list.index\<close>, \<^verbatim>\<open>list.remove\<close> and \<^verbatim>\<open>in\<close> make between an
  element and the value looked for: the same object, or an equal one.\<close>

definition py_same :: "json \<Rightarrow> json \<Rightarrow> bool" where
  "py_same x y = (x = y \<or> py_eq x y)"

text \<open>\<^verbatim>\<open>bool(x)\<close>, as \<^verbatim>\<open>if not x\<close> and \<^verbatim>\<open>if x\<close> test it.\<close>

fun truthy :: "json \<Rightarrow> bool" where
  "truthy JNull = False"
| "truthy (JBool b) = b"
| "truthy (JNum n) = (n \<noteq> 0)"
| "truthy (JStr s) = (s \<noteq> [])"
| "truthy (JList xs) = (xs \<noteq> [])"
| "truthy (JObj kvs) = (kvs \<noteq> [])"

text \<open>\<^verbatim>\<open>len(x)\<close>.\<close>

fun py_len :: "json \<Rightarrow> py_error + nat" where
  "py_len (JStr s) = Inr (length s)"
| "py_len (JList xs) = Inr (length xs)"
| "py_len (JObj kvs) = Inr (length kvs)"
| "py_len _ = Inl TypeError"

text \<open>\<^verbatim>\<open>isinstance(x, list)\<close>.\<close>

fun is_list :: "json \<Rightarrow> bool" where
  "is_list (JList xs) = True"
| "is_list _ = False"

text \<open>\<^verbatim>\<open>key in data\<close> for a string \<^verbatim>\<open>key\<close>: a key of a dictionary, an element of a
  list, a substring of a string; anything else is not iterable.\<close>

fun key_in :: "string \<Rightarrow> json \<Rightarrow> py_error + bool" where
  "key_in k (JObj kvs) = Inr (map_of kvs k \<noteq> None)"
| "key_in k (JList xs) = Inr (list_ex (\<lambda>x. py_same x (JStr k)) xs)"
| "key_in k (JStr s) = Inr (sublist k s)"
| "key_in k _ = Inl TypeError"

text \<open>\<^verbatim>\<open>all(key in data for key in keys)\<close>: stops at the first key that is missing.\<close>

fun all_keys_in :: "string list \<Rightarrow> json \<Rightarrow> py_error + bool" where
  "all_keys_in [] d = Inr True"
| "all_keys_in (k # ks) d =
     (case key_in k d of
        Inl e \<Rightarrow> Inl e
      | Inr b \<Rightarrow> if b then all_keys_in ks d else Inr False)"

text \<open>\<^verbatim>\<open>data[key]\<close> for a string \<^verbatim>\<open>key\<close>.\<close>

fun py_getitem :: "json \<Rightarrow> string \<Rightarrow> py_error + json" where
  "py_getitem (JObj kvs) k = (case map_of kvs k of None \<Rightarrow> Inl KeyError | Some v \<Rightarrow> Inr v)"
| "py_getitem _ k = Inl TypeError"

text \<open>\<^verbatim>\<open>data.get(key, default)\<close>.\<close>

fun py_get :: "json \<Rightarrow> string \<Rightarrow> json \<Rightarrow> py_error + json" where
  "py_get (JObj kvs) k d = Inr (case map_of kvs k of None \<Rightarrow> d | Some v \<Rightarrow> v)"
| "py_get _ k d = Inl AttributeError"

text \<open>What a \<^verbatim>\<open>for\<close> loop or a comprehension iterates over: the elements of a list, the
  characters of a string, the keys of a dictionary.\<close>

fun py_iter :: "json \<Rightarrow> py_error + json list" where
  "py_iter (JList xs) = Inr xs"
| "py_iter (JStr s) = Inr (map (\<lambda>c. JStr [c]) s)"
| "py_iter (JObj kvs) = Inr (map (\<lambda>kv. JStr (fst kv)) kvs)"
| "py_iter _ = Inl TypeError"

text \<open>\<^verbatim>\<open>str.isspace\<close> on one code point: tab to carriage return, the four separators
  U+001C to U+001F, the space, and next line U+0085 and no-break space U+00A0.\<close>

definition isspace :: "char \<Rightarrow> bool" where
  "isspace c =
     (let n = (of_char c :: nat)
      in (9 \<le> n \<and> n \<le> 13) \<or> (28 \<le> n \<and> n \<le> 32) \<or> n = 133 \<or> n = 160)"

text \<open>\<^verbatim>\<open>str.lower\<close> on one code point: A to Z, and the capital letters U+00C0 to U+00DE
  without the multiplication sign U+00D7, move up by 32; everything else stays.\<close>

definition lower_char :: "char \<Rightarrow> char" where
  "lower_char c =
     (let n = (of_char c :: nat)
      in if (65 \<le> n \<and> n \<le> 90) \<or> (192 \<le> n \<and> n \<le> 222 \<and> n \<noteq> 215)
         then char_of (n + 32) else c)"

text \<open>\<^verbatim>\<open>str.lower\<close> and \<^verbatim>\<open>str.strip\<close>.\<close>

definition lower :: "string \<Rightarrow> string" where
  "lower s = map lower_char s"

definition strip :: "string \<Rightarrow> string" where
  "strip s = rev (dropWhile isspace (rev (dropWhile isspace s)))"

text \<open>\<^verbatim>\<open>x.lower()\<close> on a value that need not be a string.\<close>

fun py_lower :: "json \<Rightarrow> py_error + string" where
  "py_lower (JStr s) = Inr (lower s)"
| "py_lower _ = Inl AttributeError"

text \<open>\<^verbatim>\<open>xs.index(v)\<close> on a list: the first position holding \<^verbatim>\<open>v\<close>, else \<^verbatim>\<open>ValueError\<close>.\<close>

fun list_index :: "json list \<Rightarrow> json \<Rightarrow> py_error + nat" where
  "list_index [] v = Inl ValueError"
| "list_index (x # xs) v =
     (if py_same x v then Inr 0
      else case list_index xs v of Inl e \<Rightarrow> Inl e | Inr i \<Rightarrow> Inr (Suc i))"

text \<open>\<^verbatim>\<open>s.index(t)\<close> on a string: where \<^verbatim>\<open>t\<close> first starts in \<^verbatim>\<open>s\<close>.\<close>

fun str_index :: "string \<Rightarrow> string \<Rightarrow> py_error + nat" where
  "str_index [] t = (if t = [] then Inr 0 else Inl ValueError)"
| "str_index (c # s) t =
     (if prefix t (c # s) then Inr 0
      else case str_index s t of Inl e \<Rightarrow> Inl e | Inr i \<Rightarrow> Inr (Suc i))"

text \<open>\<^verbatim>\<open>container.index(v)\<close> on whatever the field holds.\<close>

fun py_index :: "json \<Rightarrow> json \<Rightarrow> py_error + nat" where
  "py_index (JList xs) v = list_index xs v"
| "py_index (JStr s) (JStr t) = str_index s t"
| "py_index (JStr s) v = Inl TypeError"
| "py_index c v = Inl AttributeError"

text \<open>\<^verbatim>\<open>xs.remove(v)\<close> on a list: drops the first element equal to \<^verbatim>\<open>v\<close>, else
  \<^verbatim>\<open>ValueError\<close>.\<close>

fun list_remove :: "json list \<Rightarrow> json \<Rightarrow> py_error + json list" where
  "list_remove [] v = Inl ValueError"
| "list_remove (x # xs) v =
     (if py_same x v then Inr xs
      else case list_remove xs v of Inl e \<Rightarrow> Inl e | Inr ys \<Rightarrow> Inr (x # ys))"

text \<open>\<^verbatim>\<open>xs.insert(i, v)\<close> for \<^verbatim>\<open>0 <= i\<close>; an index past the end appends.\<close>

definition list_insert :: "nat \<Rightarrow> json \<Rightarrow> json list \<Rightarrow> json list" where
  "list_insert i v xs = take i xs @ v # drop i xs"


section \<open>The save file and its backup\<close>

text \<open>
  A file holds either text that \<^verbatim>\<open>json.load\<close> rejects or a document; \<^verbatim>\<open>json.dump\<close>
  writes a document that \<^verbatim>\<open>json.load\<close> reads back unchanged. The two paths the program
  touches are \<^verbatim>\<open>tv_show_progress.json\<close> and \<^verbatim>\<open>tv_show_progress.bak\<close>; \<^verbatim>\<open>None\<close> is a
  path where no file exists. Opening and writing an existing, readable file does not fail.
\<close>

datatype file_body = Malformed string | Wellformed json

record files =
  save_file :: "file_body option"
  backup_file :: "file_body option"

fun json_load :: "file_body \<Rightarrow> py_error + json" where
  "json_load (Malformed txt) = Inl JSONDecodeError"
| "json_load (Wellformed d) = Inr d"

section \<open>ShowSelector\<close>

record selector =
  original_order :: json
  remaining_shows :: json
  watched_shows :: json
  total_shows :: nat
  history :: json

text \<open>\<^verbatim>\<open>save_progress\<close>: the four sequences, written over the save file.\<close>

definition save_progress :: "selector \<Rightarrow> files \<Rightarrow> files" where
  "save_progress s fs =
     fs\<lparr>save_file := Some (Wellformed (JObj
       [(''original_order'', original_order s),
        (''remaining'', remaining_shows s),
        (''watched'', watched_shows s),
        (''history'', history s)]))\<rparr>"

subsection \<open>add_show\<close>

text \<open>The generator under \<^verbatim>\<open>any\<close>: it lowers one element at a time and stops at the
  first match, so an element that is no string raises only when reached.\<close>

fun any_lower_eq :: "string \<Rightarrow> json list \<Rightarrow> py_error + bool" where
  "any_lower_eq n [] = Inr False"
| "any_lower_eq n (s # ss) =
     (case py_lower s of
        Inl e \<Rightarrow> Inl e
      | Inr l \<Rightarrow> if lower n = l then Inr True else any_lower_eq n ss)"

definition add_show :: "string \<Rightarrow> selector \<Rightarrow> files \<Rightarrow> py_error + (bool \<times> selector \<times> files)" where
  "add_show name s fs =
     (let show_name = strip name in
      if show_name = [] then Inr (False, s, fs)
      else
        case py_iter (original_order s) of
          Inl e \<Rightarrow> Inl e
        | Inr items \<Rightarrow>
           (case any_lower_eq show_name items of
              Inl e \<Rightarrow> Inl e
            | Inr found \<Rightarrow>
                if found then Inr (False, s, fs)
                else
                  (case original_order s of
                     JList oo \<Rightarrow>
                      (case remaining_shows s of
                         JList rs \<Rightarrow>
                           (let s' = s\<lparr>original_order := JList (oo @ [JStr show_name]),
                                       remaining_shows := JList (rs @ [JStr show_name]),
                                       total_shows := length (oo @ [JStr show_name])\<rparr>
                            in Inr (True, s', save_progress s' fs))
                       | _ \<Rightarrow> Inl AttributeError)
                   | _ \<Rightarrow> Inl AttributeError)))"

subsection \<open>select_show\<close>

text \<open>
  \<^verbatim>\<open>random.choice\<close> and \<^verbatim>\<open>datetime.now\<close> are the environment's: the caller of the
  model passes the number drawn (used modulo the length of the pool, so every element can
  be drawn and nothing else) and the timestamp. \<^verbatim>\<open>random.choice\<close> finds no length on a
  number, indexes a dictionary with an integer it has no key for, and draws a character
  from a string, which \<^verbatim>\<open>remove\<close> then cannot take out.
\<close>

definition selection_record :: "json \<Rightarrow> string \<Rightarrow> json" where
  "selection_record selected now =
     JObj [(''show'', selected), (''timestamp'', JStr now), (''action'', JStr ''watched'')]"

definition select_show :: "nat \<Rightarrow> string \<Rightarrow> selector \<Rightarrow> files \<Rightarrow> py_error + (json \<times> selector \<times> files)" where
  "select_show choice now s fs =
     (if \<not> truthy (remaining_shows s) then Inr (JNull, s, fs)
      else
        case remaining_shows s of
          JList rs \<Rightarrow>
           (let selected = rs ! (choice mod length rs);
                selection = selection_record selected now
            in case watched_shows s of
                 JList ws \<Rightarrow>
                  (case list_remove rs selected of
                     Inl e \<Rightarrow> Inl e
                   | Inr rs' \<Rightarrow>
                      (case history s of
                         JList h \<Rightarrow>
                           (let s' = s\<lparr>watched_shows := JList (ws @ [selection]),
                                       remaining_shows := JList rs',
                                       history := JList (h @ [selection])\<rparr>
                            in Inr (selection, s', save_progress s' fs))
                       | _ \<Rightarrow> Inl AttributeError))
               | _ \<Rightarrow> Inl AttributeError)
        | JStr txt \<Rightarrow> Inl AttributeError
        | JObj kvs \<Rightarrow> Inl KeyError
        | _ \<Rightarrow> Inl TypeError)"

subsection \<open>undo_last\<close>

text \<open>The \<^verbatim>\<open>for ... else\<close> loop over \<^verbatim>\<open>enumerate(self.remaining_shows)\<close>: the position
  of the first element ranked after \<^verbatim>\<open>original_index\<close>, the length when there is none.
  The rank lookup inside the loop is not guarded.\<close>

fun find_insert :: "json \<Rightarrow> nat \<Rightarrow> json list \<Rightarrow> nat \<Rightarrow> py_error + nat" where
  "find_insert oo original_index [] idx = Inr idx"
| "find_insert oo original_index (x # xs) idx =
     (case py_index oo x of
        Inl e \<Rightarrow> Inl e
      | Inr r \<Rightarrow> if r > original_index then Inr idx
                else find_insert oo original_index xs (Suc idx))"

text \<open>\<^verbatim>\<open>try: original_index = self.original_order.index(show) except ValueError:
  original_index = len(self.original_order)\<close>.\<close>

definition index_or_len :: "json \<Rightarrow> json \<Rightarrow> py_error + nat" where
  "index_or_len oo v =
     (case py_index oo v of
        Inl e \<Rightarrow> if e = ValueError then py_len oo else Inl e
      | Inr i \<Rightarrow> Inr i)"

definition undo_last :: "selector \<Rightarrow> files \<Rightarrow> py_error + (json \<times> selector \<times> files)" where
  "undo_last s fs =
     (if \<not> truthy (history s) then Inr (JNull, s, fs)
      else
        case history s of
          JList h \<Rightarrow>
           (let last_selection = last h in
            case py_getitem last_selection ''show'' of
              Inl e \<Rightarrow> Inl e
            | Inr show_to_restore \<Rightarrow>
               (case index_or_len (original_order s) show_to_restore of
                  Inl e \<Rightarrow> Inl e
                | Inr original_index \<Rightarrow>
                   (case py_iter (remaining_shows s) of
                      Inl e \<Rightarrow> Inl e
                    | Inr items \<Rightarrow>
                       (case find_insert (original_order s) original_index items 0 of
                          Inl e \<Rightarrow> Inl e
                        | Inr insert_index \<Rightarrow>
                           (case remaining_shows s of
                              JList rs \<Rightarrow>
                               (case watched_shows s of
                                  JList ws \<Rightarrow>
                                   (case list_remove ws last_selection of
                                      Inl e \<Rightarrow> Inl e
                                    | Inr ws' \<Rightarrow>
                                       (let s' = s\<lparr>history := JList (butlast h),
                                                   remaining_shows :=
                                                     JList (list_insert insert_index show_to_restore rs),
                                                   watched_shows := JList ws'\<rparr>
                                        in Inr (last_selection, s', save_progress s' fs)))
                                | _ \<Rightarrow> Inl AttributeError)
                            | _ \<Rightarrow> Inl AttributeError)))))
        | JObj kvs \<Rightarrow> Inl TypeError
        | _ \<Rightarrow> Inl AttributeError)"


subsection \<open>load_progress\<close>

definition required_keys :: "string list" where
  "required_keys = [''original_order'', ''remaining'', ''watched'', ''history'']"

text \<open>The checks of the outer \<^verbatim>\<open>try\<close> on the parsed document and the assignments that
  follow them. The type test is a chain of \<^verbatim>\<open>and\<close>, so it reads the four values in
  order and stops at the first that is no list.\<close>

definition validate_primary :: "json \<Rightarrow> py_error + selector" where
  "validate_primary d =
     (case all_keys_in required_keys d of
        Inl e \<Rightarrow> Inl e
      | Inr present \<Rightarrow>
          if \<not> present then Inl KeyError
          else
            case py_getitem d ''original_order'' of
              Inl e \<Rightarrow> Inl e
            | Inr oo \<Rightarrow>
                if \<not> is_list oo then Inl ValueError
                else
                  case py_getitem d ''remaining'' of
                    Inl e \<Rightarrow> Inl e
                  | Inr rs \<Rightarrow>
                      if \<not> is_list rs then Inl ValueError
                      else
                        case py_getitem d ''watched'' of
                          Inl e \<Rightarrow> Inl e
                        | Inr ws \<Rightarrow>
                            if \<not> is_list ws then Inl ValueError
                            else
                              case py_getitem d ''history'' of
                                Inl e \<Rightarrow> Inl e
                              | Inr h \<Rightarrow>
                                  if \<not> is_list h then Inl ValueError
                                  else
                                    case py_len oo of
                                      Inl e \<Rightarrow> Inl e
                                    | Inr n \<Rightarrow>
                                        Inr \<lparr>original_order = oo, remaining_shows = rs,
                                             watched_shows = ws, total_shows = n,
                                             history = h\<rparr>)"

text \<open>The inner \<^verbatim>\<open>try\<close> on the backup file, once it is known to exist: parse, the key
  test, the four assignments and \<^verbatim>\<open>len\<close>. There is no type test here.\<close>

definition read_backup :: "file_body \<Rightarrow> py_error + selector" where
  "read_backup b =
     (case json_load b of
        Inl e \<Rightarrow> Inl e
      | Inr d \<Rightarrow>
         (case all_keys_in required_keys d of
            Inl e \<Rightarrow> Inl e
          | Inr present \<Rightarrow>
              if \<not> present then Inl KeyError
              else
                case py_getitem d ''original_order'' of
                  Inl e \<Rightarrow> Inl e
                | Inr oo \<Rightarrow>
                   (case py_getitem d ''remaining'' of
                      Inl e \<Rightarrow> Inl e
                    | Inr rs \<Rightarrow>
                       (case py_getitem d ''watched'' of
                          Inl e \<Rightarrow> Inl e
                        | Inr ws \<Rightarrow>
                           (case py_getitem d ''history'' of
                              Inl e \<Rightarrow> Inl e
                            | Inr h \<Rightarrow>
                               (case py_len oo of
                                  Inl e \<Rightarrow> Inl e
                                | Inr n \<Rightarrow>
                                    Inr \<lparr>original_order = oo, remaining_shows = rs,
                                         watched_shows = ws, total_shows = n,
                                         history = h\<rparr>))))))"

text \<open>\<^verbatim>\<open>data.get(key, []) if data else []\<close>; \<^verbatim>\<open>data\<close> is \<^verbatim>\<open>None\<close> when the parse
  failed.\<close>

definition salvage :: "json option \<Rightarrow> string \<Rightarrow> py_error + json" where
  "salvage data k =
     (case data of
        None \<Rightarrow> Inr (JList [])
      | Some d \<Rightarrow> if truthy d then py_get d k (JList []) else Inr (JList []))"

text \<open>\<^verbatim>\<open>[s["show"] for s in watched]\<close>, over the elements already iterated.\<close>

fun shows_of :: "json list \<Rightarrow> py_error + json list" where
  "shows_of [] = Inr []"
| "shows_of (w # ws) =
     (case py_getitem w ''show'' of
        Inl e \<Rightarrow> Inl e
      | Inr x \<Rightarrow> (case shows_of ws of Inl e \<Rightarrow> Inl e | Inr xs \<Rightarrow> Inr (x # xs)))"

text \<open>The loop that rebuilds the order: \<^verbatim>\<open>seen\<close> holds the lowered names met so far,
  \<^verbatim>\<open>recovered_order\<close> the names kept.\<close>

fun recover_order :: "string set \<Rightarrow> json list \<Rightarrow> json list \<Rightarrow> py_error + json list" where
  "recover_order seen recovered_order [] = Inr recovered_order"
| "recover_order seen recovered_order (x # xs) =
     (case py_lower x of
        Inl e \<Rightarrow> Inl e
      | Inr l \<Rightarrow>
          if l \<notin> seen then recover_order (insert l seen) (recovered_order @ [x]) xs
          else recover_order seen recovered_order xs)"

text \<open>\<^verbatim>\<open>[s for s in watched if s["show"] in original_order]\<close>.\<close>

fun filter_watched :: "json list \<Rightarrow> json list \<Rightarrow> py_error + json list" where
  "filter_watched oo [] = Inr []"
| "filter_watched oo (w # ws) =
     (case py_getitem w ''show'' of
        Inl e \<Rightarrow> Inl e
      | Inr x \<Rightarrow>
         (case filter_watched oo ws of
            Inl e \<Rightarrow> Inl e
          | Inr ys \<Rightarrow> Inr (if list_ex (\<lambda>y. py_same y x) oo then w # ys else ys)))"

text \<open>The body of the \<^verbatim>\<open>try\<close> that salvages what the failed document still holds.
  \<^verbatim>\<open>remaining + watched_shows\<close> needs a list on the left.\<close>

definition data_recovery :: "json option \<Rightarrow> string list \<Rightarrow> py_error + selector" where
  "data_recovery data initial_shows =
     (case salvage data ''remaining'' of
        Inl e \<Rightarrow> Inl e
      | Inr remaining \<Rightarrow>
     (case salvage data ''watched'' of
        Inl e \<Rightarrow> Inl e
      | Inr watched \<Rightarrow>
     (case salvage data ''history'' of
        Inl e \<Rightarrow> Inl e
      | Inr hist \<Rightarrow>
     (case py_iter watched of
        Inl e \<Rightarrow> Inl e
      | Inr welems \<Rightarrow>
     (case shows_of welems of
        Inl e \<Rightarrow> Inl e
      | Inr watched_names \<Rightarrow>
     (case remaining of
        JList rs \<Rightarrow>
         (case recover_order {} [] ((rs @ watched_names) @ map JStr initial_shows) of
            Inl e \<Rightarrow> Inl e
          | Inr recovered_order \<Rightarrow>
             (case filter_watched recovered_order welems of
                Inl e \<Rightarrow> Inl e
              | Inr ws' \<Rightarrow>
                  Inr \<lparr>original_order = JList recovered_order,
                       remaining_shows =
                         JList (filter (\<lambda>x. list_ex (\<lambda>y. py_same y x) recovered_order) rs),
                       watched_shows = JList ws',
                       total_shows = length recovered_order,
                       history = hist\<rparr>))
      | _ \<Rightarrow> Inl TypeError))))))"

text \<open>The handler of the recovery \<^verbatim>\<open>try\<close>: back to the list the caller gave.\<close>

definition full_reset :: "string list \<Rightarrow> selector" where
  "full_reset initial_shows =
     \<lparr>original_order = JList (map JStr initial_shows),
      remaining_shows = JList (map JStr initial_shows),
      watched_shows = JList [],
      total_shows = length initial_shows,
      history = JList []\<rparr>"

text \<open>\<^verbatim>\<open>Path(SAVE_FILE).rename(backup_file)\<close>, guarded by \<^verbatim>\<open>exists\<close>: the save file
  takes the place of any earlier backup.\<close>

definition rename_to_backup :: "files \<Rightarrow> files" where
  "rename_to_backup fs =
     (if save_file fs \<noteq> None then fs\<lparr>backup_file := save_file fs, save_file := None\<rparr> else fs)"

text \<open>The handler of the outer \<^verbatim>\<open>try\<close>. Every exception of the backup attempt and of the
  recovery attempt is caught (\<^verbatim>\<open>except Exception\<close>); after a backup is adopted the
  method returns without saving.\<close>

definition recover :: "json option \<Rightarrow> string list \<Rightarrow> files \<Rightarrow> selector \<times> files" where
  "recover data initial_shows fs =
     (let fs1 = rename_to_backup fs;
          fallback =
            (let s' = (case data_recovery data initial_shows of
                         Inl e \<Rightarrow> full_reset initial_shows
                       | Inr r \<Rightarrow> r)
             in (s', save_progress s' fs1))
      in case backup_file fs1 of
           None \<Rightarrow> fallback
         | Some b \<Rightarrow> (case read_backup b of Inl e \<Rightarrow> fallback | Inr s' \<Rightarrow> (s', fs1)))"

text \<open>\<^verbatim>\<open>except (json.JSONDecodeError, KeyError, ValueError)\<close>.\<close>

definition caught_by_load :: "py_error \<Rightarrow> bool" where
  "caught_by_load e = (e = JSONDecodeError \<or> e = KeyError \<or> e = ValueError)"

text \<open>The outer \<^verbatim>\<open>try\<close>: parse, then check and assign. When it raises, the handler
  still sees \<^verbatim>\<open>data\<close>: \<^verbatim>\<open>None\<close> when the parse failed, the parsed document when a
  check failed.\<close>

definition try_primary :: "file_body \<Rightarrow> (py_error \<times> json option) + selector" where
  "try_primary body =
     (case json_load body of
        Inl e \<Rightarrow> Inl (e, None)
      | Inr d \<Rightarrow> (case validate_primary d of Inl e \<Rightarrow> Inl (e, Some d) | Inr s' \<Rightarrow> Inr s'))"

text \<open>Every path that returns assigns all five fields, so the result does not depend on
  what \<^verbatim>\<open>__init__\<close> had put there. An exception the outer handler does not name leaves
  the method, and the constructor with it.\<close>

definition load_progress :: "string list \<Rightarrow> files \<Rightarrow> py_error + (selector \<times> files)" where
  "load_progress initial_shows fs =
     (case save_file fs of
        None \<Rightarrow> Inl FileNotFoundError
      | Some body \<Rightarrow>
         (case try_primary body of
            Inl (e, data) \<Rightarrow>
              if caught_by_load e then Inr (recover data initial_shows fs) else Inl e
          | Inr s' \<Rightarrow> Inr (s', fs)))"

subsection \<open>The constructor\<close>

definition new_selector :: "string list \<Rightarrow> files \<Rightarrow> py_error + (selector \<times> files)" where
  "new_selector shows fs =
     (if save_file fs \<noteq> None then load_progress shows fs
      else Inr (\<lparr>original_order = JList (map JStr shows),
                 remaining_shows = JList (map JStr shows),
                 watched_shows = JList [],
                 total_shows = length (map JStr shows),
                 history = JList []\<rparr>, fs))"

section \<open>Floats and get_progress\<close>

text \<open>
  A Python \<^verbatim>\<open>float\<close> is a binary64 number; the model keeps its exact value as a rational
  and rounds after every operation as the hardware does, to the nearest number with a
  53-bit significand, ties to the even significand. The exponent range is not bounded:
  list lengths are far from overflow and underflow.
\<close>

function bit_length :: "int \<Rightarrow> nat" where
  "bit_length n = (if n \<le> 0 then 0 else Suc (bit_length (n div 2)))"
  by auto
termination
  by (relation "measure nat") auto

text \<open>The exponent \<open>e\<close> with \<open>2 ^ e \<le> x < 2 ^ (e + 1)\<close>, for a positive \<open>x\<close>.\<close>

definition ilog2 :: "rat \<Rightarrow> int" where
  "ilog2 x =
     (let (p, q) = quotient_of x;
          d = int (bit_length p) - int (bit_length q)
      in if 2 powi d \<le> x then d else d - 1)"

text \<open>The nearest integer, a tie going to the even one.\<close>

definition round_even :: "rat \<Rightarrow> int" where
  "round_even y =
     (let f = \<lfloor>y\<rfloor>; r = y - of_int f
      in if r < 1 / 2 then f
         else if 1 / 2 < r then f + 1
         else if even f then f else f + 1)"

text \<open>The binary64 number nearest to a rational.\<close>

definition fl :: "rat \<Rightarrow> rat" where
  "fl x =
     (if x = 0 then 0
      else let u = 2 powi (ilog2 \<bar>x\<bar> - 52)
           in of_int (round_even (x / u)) * u)"

text \<open>\<^verbatim>\<open>a / b\<close> on two \<^verbatim>\<open>int\<close>s (the correctly rounded quotient), \<^verbatim>\<open>x * y\<close> on
  floats, and \<^verbatim>\<open>round(x, 1)\<close>: the decimal with one digit after the point nearest to the
  float's exact value, a tie going to the even digit, read back as a float.\<close>

definition py_truediv :: "nat \<Rightarrow> nat \<Rightarrow> rat" where
  "py_truediv a b = fl (of_nat a / of_nat b)"

definition py_fmul :: "rat \<Rightarrow> rat \<Rightarrow> rat" where
  "py_fmul x y = fl (x * y)"

definition py_round1 :: "rat \<Rightarrow> rat" where
  "py_round1 x = fl (of_int (round_even (x * 10)) / 10)"

text \<open>The dictionary \<^verbatim>\<open>get_progress\<close> returns.\<close>

record progress =
  watched :: nat
  remaining :: nat
  total :: nat
  percentage :: rat

text \<open>\<^verbatim>\<open>get_progress\<close> assigns nothing and writes no file; like the commands, the model
  hands back the selector and the files it was given.\<close>

definition get_progress :: "selector \<Rightarrow> files \<Rightarrow> py_error + (progress \<times> selector \<times> files)" where
  "get_progress s fs =
     (case py_len (watched_shows s) of
        Inl e \<Rightarrow> Inl e
      | Inr w \<Rightarrow>
         (case py_len (remaining_shows s) of
            Inl e \<Rightarrow> Inl e
          | Inr r \<Rightarrow>
              Inr (\<lparr>watched = w, remaining = r, total = total_shows s,
                    percentage =
                      (if total_shows s \<noteq> 0
                       then py_round1 (py_fmul (py_truediv w (total_shows s)) 100)
                       else 0)\<rparr>,
                   s, fs)))"

section \<open>Runs of commands\<close>

text \<open>What the menu loop can ask of a selector, with the values the environment supplies
  for a selection. A run stops at the first uncaught exception, as the process does.\<close>

datatype command = AddShow string | SelectShow nat string | UndoLast

fun exec :: "command \<Rightarrow> selector \<times> files \<Rightarrow> py_error + (selector \<times> files)" where
  "exec (AddShow name) (s, fs) =
     (case add_show name s fs of Inl e \<Rightarrow> Inl e | Inr (r, s', fs') \<Rightarrow> Inr (s', fs'))"
| "exec (SelectShow choice now) (s, fs) =
     (case select_show choice now s fs of Inl e \<Rightarrow> Inl e | Inr (r, s', fs') \<Rightarrow> Inr (s', fs'))"
| "exec UndoLast (s, fs) =
     (case undo_last s fs of Inl e \<Rightarrow> Inl e | Inr (r, s', fs') \<Rightarrow> Inr (s', fs'))"

fun run :: "command list \<Rightarrow> selector \<times> files \<Rightarrow> py_error + (selector \<times> files)" where
  "run [] w = Inr w"
| "run (c # cs) w = (case exec c w of Inl e \<Rightarrow> Inl e | Inr w' \<Rightarrow> run cs w')"

text \<open>A selector built from a seed list where no save file exists.\<close>

definition fresh :: "string list \<Rightarrow> selector" where
  "fresh shows =
     \<lparr>original_order = JList (map JStr shows),
      remaining_shows = JList (map JStr shows),
      watched_shows = JList [],
      total_shows = length shows,
      history = JList []\<rparr>"



section \<open>Selectors that hold what the annotations promise\<close>

text \<open>
  \<^verbatim>\<open>__init__\<close>, \<^verbatim>\<open>add_show\<close>, \<^verbatim>\<open>select_show\<close> and \<^verbatim>\<open>undo_last\<close> only ever store lists
  of strings in \<^verbatim>\<open>original_order\<close> and \<^verbatim>\<open>remaining_shows\<close>, and lists of the records
  \<^verbatim>\<open>select_show\<close> builds in \<^verbatim>\<open>watched_shows\<close> and \<^verbatim>\<open>history\<close>. \<open>typed\<close> is the
  selector with such contents; a record is given by its show and its timestamp.
\<close>

definition record_of :: "string \<times> string \<Rightarrow> json" where
  "record_of r = selection_record (JStr (fst r)) (snd r)"

definition typed ::
  "string list \<Rightarrow> string list \<Rightarrow> (string \<times> string) list \<Rightarrow> (string \<times> string) list \<Rightarrow> selector" where
  "typed oo rs ws hs =
     \<lparr>original_order = JList (map JStr oo),
      remaining_shows = JList (map JStr rs),
      watched_shows = JList (map record_of ws),
      total_shows = length oo,
      history = JList (map record_of hs)\<rparr>"

text \<open>The rank of a name: its first position in the original order, the length of the
  order when it is absent.\<close>

definition rank :: "string list \<Rightarrow> string \<Rightarrow> nat" where
  "rank oo x = length (takeWhile (\<lambda>y. y \<noteq> x) oo)"

text \<open>What the four sequences of such a selector keep in step: the history and the
  watched log hold the same records, the pool and the watched shows together hold each
  name as often as the original order does, and where the original order has no name
  twice the pool is in strictly rising rank.\<close>

definition in_step ::
  "string list \<Rightarrow> string list \<Rightarrow> (string \<times> string) list \<Rightarrow> (string \<times> string) list \<Rightarrow> bool" where
  "in_step oo rs ws hs =
     (mset hs = mset ws \<and> mset rs + mset (map fst ws) = mset oo \<and>
      (distinct oo \<longrightarrow> sorted_wrt (<) (map (rank oo) rs)))"

section \<open>The order the recovery is specified to rebuild\<close>



section \<open>Selecting from an empty pool\<close>

text \<open>
  C9. When the remaining pool is the empty list, \<^verbatim>\<open>select_show\<close> returns \<^verbatim>\<open>None\<close> and
  leaves the original order, the pool, the watched log, the history, the total and the
  files as they were, whatever number and timestamp the environment would have supplied.
\<close>

theorem select_show_empty_pool:
  "remaining_shows s = JList [] \<Longrightarrow> select_show choice now s fs = Inr (JNull, s, fs)"
  by (simp add: select_show_def)

theorem select_show_empty_pool_witness:
  "remaining_shows
     \<lparr>original_order = JList [JStr ''Oz''], remaining_shows = JList [],
      watched_shows = JList [selection_record (JStr ''Oz'') ''2024-01-01T10:00:00''],
      total_shows = 1,
      history = JList [selection_record (JStr ''Oz'') ''2024-01-01T10:00:00'']\<rparr> = JList []
   \<and> select_show 0 ''2024-01-02T09:30:00''
     \<lparr>original_order = JList [JStr ''Oz''], remaining_shows = JList [],
      watched_shows = JList [selection_record (JStr ''Oz'') ''2024-01-01T10:00:00''],
      total_shows = 1,
      history = JList [selection_record (JStr ''Oz'') ''2024-01-01T10:00:00'']\<rparr>
     \<lparr>save_file = None, backup_file = None\<rparr>
   = Inr (JNull,
     \<lparr>original_order = JList [JStr ''Oz''], remaining_shows = JList [],
      watched_shows = JList [selection_record (JStr ''Oz'') ''2024-01-01T10:00:00''],
      total_shows = 1,
      history = JList [selection_record (JStr ''Oz'') ''2024-01-01T10:00:00'']\<rparr>,
     \<lparr>save_file = None, backup_file = None\<rparr>)"
  using select_show_empty_pool
    [of "\<lparr>original_order = JList [JStr ''Oz''], remaining_shows = JList [],
      watched_shows = JList [selection_record (JStr ''Oz'') ''2024-01-01T10:00:00''],
      total_shows = 1,
      history = JList [selection_record (JStr ''Oz'') ''2024-01-01T10:00:00'']\<rparr>"
     0 "''2024-01-02T09:30:00''" "\<lparr>save_file = None, backup_file = None\<rparr>"]
  by simp

section \<open>The builtins on lists of strings and of selection records\<close>

lemma py_same_JStr [simp]: "py_same (JStr a) (JStr b) \<longleftrightarrow> a = b"
  by (auto simp: py_same_def)

lemma py_same_record [simp]: "py_same (record_of a) (record_of b) \<longleftrightarrow> a = b"
  by (cases a; cases b) (auto simp: py_same_def record_of_def selection_record_def)

lemma any_lower_eq_strs:
  "any_lower_eq n (map JStr oo) = Inr (lower n \<in> lower ` set oo)"
  by (induction oo) auto

lemma list_index_strs:
  "list_index (map JStr oo) (JStr x) = (if x \<in> set oo then Inr (rank oo x) else Inl ValueError)"
  by (induction oo) (auto simp: rank_def)

lemma list_remove_strs:
  "x \<in> set rs \<Longrightarrow> list_remove (map JStr rs) (JStr x) = Inr (map JStr (remove1 x rs))"
  by (induction rs) auto

lemma list_remove_records:
  "w \<in> set ws \<Longrightarrow> list_remove (map record_of ws) (record_of w) = Inr (map record_of (remove1 w ws))"
  by (induction ws) auto

lemma find_insert_strs:
  "set rs \<subseteq> set oo \<Longrightarrow>
   find_insert (JList (map JStr oo)) i (map JStr rs) k =
     Inr (k + length (takeWhile (\<lambda>y. rank oo y \<le> i) rs))"
  by (induction rs arbitrary: k) (auto simp: list_index_strs)

lemma list_insert_takeWhile:
  "list_insert (length (takeWhile P xs)) v (map f xs) = map f (takeWhile P xs) @ v # map f (dropWhile P xs)"
  by (simp add: list_insert_def take_map drop_map flip: takeWhile_eq_take dropWhile_eq_drop)


section \<open>The three commands on selectors that hold what the annotations promise\<close>

lemma add_show_typed:
  "add_show name (typed oo rs ws hs) fs =
     (if strip name = [] \<or> lower (strip name) \<in> lower ` set oo
      then Inr (False, typed oo rs ws hs, fs)
      else Inr (True, typed (oo @ [strip name]) (rs @ [strip name]) ws hs,
                save_progress (typed (oo @ [strip name]) (rs @ [strip name]) ws hs) fs))"
  by (simp add: add_show_def typed_def any_lower_eq_strs Let_def)

lemma select_show_typed:
  "select_show choice now (typed oo rs ws hs) fs =
     (if rs = [] then Inr (JNull, typed oo rs ws hs, fs)
      else let x = rs ! (choice mod length rs);
               s' = typed oo (remove1 x rs) (ws @ [(x, now)]) (hs @ [(x, now)])
           in Inr (record_of (x, now), s', save_progress s' fs))"
proof (cases "rs = []")
  case True
  then show ?thesis by (simp add: select_show_def typed_def)
next
  case False
  then have mem: "rs ! (choice mod length rs) \<in> set rs" by simp
  have nth: "map JStr rs ! (choice mod length rs) = JStr (rs ! (choice mod length rs))"
    using False by simp
  show ?thesis
    using False
    by (simp add: select_show_def typed_def nth list_remove_strs [OF mem] Let_def record_of_def)
qed

lemma getitem_record [simp]: "py_getitem (record_of r) ''show'' = Inr (JStr (fst r))"
  by (simp add: record_of_def selection_record_def)

lemma undo_last_typed:
  assumes "hs \<noteq> []" "last hs \<in> set ws" "set rs \<subseteq> set oo"
  shows "undo_last (typed oo rs ws hs) fs =
     (let x = fst (last hs);
          P = (\<lambda>y. rank oo y \<le> (if x \<in> set oo then rank oo x else length oo));
          s' = typed oo (takeWhile P rs @ x # dropWhile P rs) (remove1 (last hs) ws) (butlast hs)
      in Inr (record_of (last hs), s', save_progress s' fs))"
proof -
  have l: "last (map record_of hs) = record_of (last hs)"
    using assms(1) by (simp add: last_map)
  show ?thesis
    using assms
    by (simp add: undo_last_def typed_def l index_or_len_def list_index_strs
        find_insert_strs list_insert_takeWhile list_remove_records Let_def map_butlast)
qed



section \<open>Ranks and insertion by rank\<close>
lemma rank_Nil [simp]: "rank [] x = 0"
  by (simp add: rank_def)

lemma rank_Cons [simp]: "rank (a # oo) x = (if a = x then 0 else Suc (rank oo x))"
  by (simp add: rank_def)

lemma rank_less: "x \<in> set oo \<Longrightarrow> rank oo x < length oo"
  by (induction oo) auto

lemma rank_le: "rank oo x \<le> length oo"
  by (induction oo) auto

lemma rank_absent: "x \<notin> set oo \<Longrightarrow> rank oo x = length oo"
  by (induction oo) auto

lemma rank_nth: "x \<in> set oo \<Longrightarrow> oo ! rank oo x = x"
  by (induction oo) auto

lemma rank_inj: "x \<in> set oo \<Longrightarrow> rank oo x = rank oo y \<Longrightarrow> x = y"
  by (induction oo) (auto split: if_splits)

lemma rank_append_old: "x \<in> set oo \<Longrightarrow> rank (oo @ ys) x = rank oo x"
  by (induction oo) auto

lemma rank_append_new: "x \<notin> set oo \<Longrightarrow> rank (oo @ [x]) x = length oo"
  by (induction oo) auto

lemma rank_of_nth: "distinct oo \<Longrightarrow> i < length oo \<Longrightarrow> rank oo (oo ! i) = i"
  by (induction oo arbitrary: i) (auto simp: nth_Cons split: nat.splits)

lemma ranks_of_order: "distinct oo \<Longrightarrow> map (rank oo) oo = [0..<length oo]"
  by (rule nth_equalityI) (simp_all add: rank_of_nth)

lemma sorted_ranks_order: "distinct oo \<Longrightarrow> sorted_wrt (<) (map (rank oo) oo)"
  by (simp add: ranks_of_order)

lemma sorted_wrt_remove1: "sorted_wrt R (map f xs) \<Longrightarrow> sorted_wrt R (map f (remove1 x xs))"
  by (induction xs) (auto dest: notin_set_remove1)

lemma dropWhile_above:
  "sorted_wrt (<) (map r xs) \<Longrightarrow> y \<in> set (dropWhile (\<lambda>y. r y \<le> (i::nat)) xs) \<Longrightarrow> i < r y"
  by (induction xs) (auto split: if_splits)

lemma sorted_insert_rank:
  assumes s: "sorted_wrt (<) (map r xs)" and new: "\<forall>y\<in>set xs. r y \<noteq> r x"
  shows "sorted_wrt (<) (map r (takeWhile (\<lambda>y. r y \<le> r x) xs @ x # dropWhile (\<lambda>y. r y \<le> (r x :: nat)) xs))"
proof -
  let ?P = "\<lambda>y. r y \<le> r x"
  have "sorted_wrt (<) (map r (takeWhile ?P xs @ dropWhile ?P xs))" using s by simp
  then have parts: "sorted_wrt (<) (map r (takeWhile ?P xs))" "sorted_wrt (<) (map r (dropWhile ?P xs))"
    and cross: "\<forall>a\<in>set (takeWhile ?P xs). \<forall>b\<in>set (dropWhile ?P xs). r a < r b"
    unfolding map_append sorted_wrt_append by auto
  have below: "\<forall>a\<in>set (takeWhile ?P xs). r a < r x"
    using new by (metis (mono_tags, lifting) set_takeWhileD le_neq_implies_less)
  have above: "\<forall>b\<in>set (dropWhile ?P xs). r x < r b"
    using dropWhile_above [OF s] by blast
  show ?thesis
    using parts cross below above by (auto simp: sorted_wrt_append)
qed

lemma insert_restores:
  assumes s: "sorted_wrt (<) (map r xs)" and mem: "x \<in> set xs"
  shows "takeWhile (\<lambda>y. r y \<le> r x) (remove1 x xs) @ x # dropWhile (\<lambda>y. r y \<le> (r x :: nat)) (remove1 x xs) = xs"
  using s mem
proof (induction xs)
  case Nil
  then show ?case by simp
next
  case (Cons a xs)
  show ?case
  proof (cases "a = x")
    case True
    have "\<forall>y\<in>set xs. r x < r y" using Cons.prems True by auto
    then have "takeWhile (\<lambda>y. r y \<le> r x) xs = []" "dropWhile (\<lambda>y. r y \<le> r x) xs = xs"
      by (cases xs; fastforce)+
    then show ?thesis using True by simp
  next
    case False
    then have "x \<in> set xs" using Cons.prems by simp
    moreover have "r a < r x" using Cons.prems \<open>x \<in> set xs\<close> by auto
    moreover have "sorted_wrt (<) (map r xs)" using Cons.prems by simp
    ultimately show ?thesis using Cons.IH False by simp
  qed
qed


section \<open>What every command keeps in step\<close>

lemma in_step_subset: "in_step oo rs ws hs \<Longrightarrow> set rs \<subseteq> set oo"
  unfolding in_step_def by (metis mset_subset_eq_add_left set_mset_mono set_mset_mset)

lemma in_step_watched_subset: "in_step oo rs ws hs \<Longrightarrow> fst ` set ws \<subseteq> set oo"
  unfolding in_step_def
  by (metis mset_subset_eq_add_right set_mset_mono set_mset_mset set_map)

lemma in_step_add:
  assumes i: "in_step oo rs ws hs" and new: "lower n \<notin> lower ` set oo"
  shows "in_step (oo @ [n]) (rs @ [n]) ws hs"
proof -
  have n: "n \<notin> set oo" using new by auto
  have sub: "set rs \<subseteq> set oo" by (rule in_step_subset [OF i])
  have ranks: "map (rank (oo @ [n])) rs = map (rank oo) rs"
    using sub by (auto simp: rank_append_old)
  have below: "\<forall>x\<in>set rs. rank oo x < length oo"
    using sub by (auto intro: rank_less)
  show ?thesis
    using i n below
    by (auto simp: in_step_def ranks rank_append_new sorted_wrt_append)
qed

lemma in_step_select:
  assumes i: "in_step oo rs ws hs" and x: "x \<in> set rs"
  shows "in_step oo (remove1 x rs) (ws @ [(x, t)]) (hs @ [(x, t)])"
proof -
  have a: "add_mset x (mset (remove1 x rs)) = mset rs"
    using x by simp
  have b: "mset (map fst (ws @ [(x, t)])) = add_mset x (mset (map fst ws))"
    by simp
  have "mset (remove1 x rs) + mset (map fst (ws @ [(x, t)])) = mset rs + mset (map fst ws)"
    unfolding b using a by (metis union_mset_add_mset_left union_mset_add_mset_right)
  moreover have "mset (hs @ [(x, t)]) = mset (ws @ [(x, t)])"
    using i by (simp add: in_step_def)
  ultimately show ?thesis
    using i unfolding in_step_def by (metis sorted_wrt_remove1)
qed

lemma in_step_undo:
  assumes i: "in_step oo rs ws hs" and h: "hs \<noteq> []"
  defines "x \<equiv> fst (last hs)"
  defines "P \<equiv> \<lambda>y. rank oo y \<le> (if x \<in> set oo then rank oo x else length oo)"
  shows "last hs \<in> set ws"
    and "in_step oo (takeWhile P rs @ x # dropWhile P rs) (remove1 (last hs) ws) (butlast hs)"
proof -
  have "last hs \<in> set hs" using h by simp
  then have "last hs \<in># mset ws" using i by (metis in_step_def set_mset_mset)
  then show mem: "last hs \<in> set ws" by simp
  then have xo: "x \<in> set oo" using in_step_watched_subset [OF i] by (auto simp: x_def)
  have P: "P = (\<lambda>y. rank oo y \<le> rank oo x)" using xo by (simp add: P_def)
  have m1: "mset (butlast hs) = mset (remove1 (last hs) ws)"
  proof -
    have "mset hs = add_mset (last hs) (mset (butlast hs))"
      using h by (metis append_butlast_last_id mset.simps(1) mset.simps(2) mset_append
          union_mset_add_mset_right add.right_neutral)
    moreover have "mset ws = add_mset (last hs) (mset (remove1 (last hs) ws))"
      using mem by simp
    moreover have "mset hs = mset ws" using i by (simp add: in_step_def)
    ultimately show ?thesis by (metis add_mset_add_mset_same_iff)
  qed
  have xw: "x \<in># mset (map fst ws)" using mem by (auto simp: x_def)
  have m2: "mset (takeWhile P rs @ x # dropWhile P rs) + mset (map fst (remove1 (last hs) ws)) = mset oo"
  proof -
    have "mset (takeWhile P rs @ x # dropWhile P rs) = add_mset x (mset rs)"
      by (metis mset.simps(2) mset_append takeWhile_dropWhile_id union_mset_add_mset_right)
    moreover have "add_mset x (mset (map fst (remove1 (last hs) ws))) = mset (map fst ws)"
      using mem by (induction ws) (auto simp: x_def)
    moreover have "mset rs + mset (map fst ws) = mset oo" using i by (simp add: in_step_def)
    ultimately show ?thesis
      by (metis union_mset_add_mset_left union_mset_add_mset_right)
  qed
  have m3: "sorted_wrt (<) (map (rank oo) (takeWhile P rs @ x # dropWhile P rs))" if d: "distinct oo"
  proof -
    have s: "sorted_wrt (<) (map (rank oo) rs)" using i d by (simp add: in_step_def)
    have "count (mset oo) x = 1" using d xo by (simp add: distinct_count_atmost_1)
    moreover have "count (mset oo) x = count (mset rs) x + count (mset (map fst ws)) x"
      using i by (metis in_step_def count_union)
    moreover have "count (mset (map fst ws)) x \<ge> 1" using xw by (simp add: Suc_le_eq)
    ultimately have "count (mset rs) x = 0" by linarith
    then have "x \<notin> set rs" by (metis count_eq_zero_iff set_mset_mset)
    then have "\<forall>y\<in>set rs. rank oo y \<noteq> rank oo x"
      using rank_inj [OF xo] by metis
    from sorted_insert_rank [OF s this] show ?thesis by (simp add: P)
  qed
  show "in_step oo (takeWhile P rs @ x # dropWhile P rs) (remove1 (last hs) ws) (butlast hs)"
    unfolding in_step_def using m1 m2 m3 by blast
qed


lemma in_step_fresh: "in_step seed seed [] []"
  by (simp add: in_step_def sorted_ranks_order)

lemma fresh_typed: "fresh seed = typed seed seed [] []"
  by (simp add: fresh_def typed_def)

lemma exec_typed:
  assumes i: "in_step oo rs ws hs"
  shows "\<exists>oo' rs' ws' hs' fs'.
           exec c (typed oo rs ws hs, fs) = Inr (typed oo' rs' ws' hs', fs') \<and>
           in_step oo' rs' ws' hs' \<and> (distinct oo \<longrightarrow> distinct oo')"
proof (cases c)
  case (AddShow name)
  show ?thesis
  proof (cases "strip name = [] \<or> lower (strip name) \<in> lower ` set oo")
    case True
    then have "exec c (typed oo rs ws hs, fs) = Inr (typed oo rs ws hs, fs)"
      using AddShow by (simp add: add_show_typed)
    then show ?thesis using i by blast
  next
    case False
    then have e: "exec c (typed oo rs ws hs, fs) =
        Inr (typed (oo @ [strip name]) (rs @ [strip name]) ws hs,
             save_progress (typed (oo @ [strip name]) (rs @ [strip name]) ws hs) fs)"
      using AddShow by (simp add: add_show_typed)
    have "in_step (oo @ [strip name]) (rs @ [strip name]) ws hs"
      using in_step_add [OF i] False by blast
    moreover have "distinct oo \<longrightarrow> distinct (oo @ [strip name])"
      using False by auto
    ultimately show ?thesis using e by blast
  qed
next
  case (SelectShow choice now)
  show ?thesis
  proof (cases "rs = []")
    case True
    then have "exec c (typed oo rs ws hs, fs) = Inr (typed oo rs ws hs, fs)"
      using SelectShow by (simp add: select_show_typed)
    then show ?thesis using i by blast
  next
    case False
    define x where "x = rs ! (choice mod length rs)"
    have e: "exec c (typed oo rs ws hs, fs) =
        Inr (typed oo (remove1 x rs) (ws @ [(x, now)]) (hs @ [(x, now)]),
             save_progress (typed oo (remove1 x rs) (ws @ [(x, now)]) (hs @ [(x, now)])) fs)"
      using SelectShow False by (simp add: select_show_typed x_def Let_def)
    have "x \<in> set rs" using False by (simp add: x_def)
    from in_step_select [OF i this] e show ?thesis by blast
  qed
next
  case UndoLast
  show ?thesis
  proof (cases "hs = []")
    case True
    then have "exec c (typed oo rs ws hs, fs) = Inr (typed oo rs ws hs, fs)"
      using UndoLast by (simp add: undo_last_def typed_def)
    then show ?thesis using i by blast
  next
    case False
    note u = in_step_undo [OF i False]
    define P where
      "P = (\<lambda>y. rank oo y \<le> (if fst (last hs) \<in> set oo then rank oo (fst (last hs)) else length oo))"
    define rs' where "rs' = takeWhile P rs @ fst (last hs) # dropWhile P rs"
    have "undo_last (typed oo rs ws hs) fs =
        Inr (record_of (last hs), typed oo rs' (remove1 (last hs) ws) (butlast hs),
             save_progress (typed oo rs' (remove1 (last hs) ws) (butlast hs)) fs)"
      unfolding undo_last_typed [OF False u(1) in_step_subset [OF i]] Let_def rs'_def P_def ..
    then have "exec c (typed oo rs ws hs, fs) =
        Inr (typed oo rs' (remove1 (last hs) ws) (butlast hs),
             save_progress (typed oo rs' (remove1 (last hs) ws) (butlast hs)) fs)"
      using UndoLast by simp
    moreover have "in_step oo rs' (remove1 (last hs) ws) (butlast hs)"
      using u(2) unfolding rs'_def P_def .
    ultimately show ?thesis by blast
  qed
qed

lemma run_typed:
  assumes "in_step oo rs ws hs"
  shows "\<exists>oo' rs' ws' hs' fs'.
           run cs (typed oo rs ws hs, fs) = Inr (typed oo' rs' ws' hs', fs') \<and>
           in_step oo' rs' ws' hs' \<and> (distinct oo \<longrightarrow> distinct oo')"
  using assms
proof (induction cs arbitrary: oo rs ws hs fs)
  case Nil
  then show ?case by auto
next
  case (Cons c cs)
  from exec_typed [OF Cons.prems, of c fs]
  obtain oo1 rs1 ws1 hs1 fs1 where
    e: "exec c (typed oo rs ws hs, fs) = Inr (typed oo1 rs1 ws1 hs1, fs1)"
    and i1: "in_step oo1 rs1 ws1 hs1" and d1: "distinct oo \<longrightarrow> distinct oo1"
    by blast
  from Cons.IH [OF i1, of fs1]
  obtain oo2 rs2 ws2 hs2 fs2 where
    r: "run cs (typed oo1 rs1 ws1 hs1, fs1) = Inr (typed oo2 rs2 ws2 hs2, fs2)"
    and i2: "in_step oo2 rs2 ws2 hs2" and d2: "distinct oo1 \<longrightarrow> distinct oo2"
    by blast
  have "run (c # cs) (typed oo rs ws hs, fs) = Inr (typed oo2 rs2 ws2 hs2, fs2)"
    using e r by simp
  then show ?case using i2 d1 d2 by blast
qed

lemma new_selector_without_save_file:
  "save_file fs = None \<Longrightarrow> new_selector seed fs = Inr (fresh seed, fs)"
  by (simp add: new_selector_def fresh_def)

lemma run_fresh:
  "\<exists>oo rs ws hs fs'.
     run cs (fresh seed, fs) = Inr (typed oo rs ws hs, fs') \<and>
     in_step oo rs ws hs \<and> (distinct seed \<longrightarrow> distinct oo)"
  unfolding fresh_typed by (rule run_typed [OF in_step_fresh])


section \<open>Pool and watched log against the original order\<close>

text \<open>
  C1, as amended. Start from a selector built from any seed list where no save file
  exists and run any list of \<^verbatim>\<open>add_show\<close>, \<^verbatim>\<open>select_show\<close> and \<^verbatim>\<open>undo_last\<close> calls,
  whatever the random draws and timestamps. No call raises, the selector still holds
  lists of names and of selection records, and the names in the pool together with the
  shows recorded in the watched log are, as a set, the names of the original order.
  When the seed list names no show twice, no name occurs twice among the pool and the
  watched shows. Every prefix of a run is a run, so this holds after every command;
  \<open>new_selector_without_save_file\<close> shows that \<open>fresh\<close> is what the constructor returns
  where no save file exists.
\<close>

theorem pool_and_watched_partition_order:
  "\<exists>oo rs ws hs fs'.
     run cs (fresh seed, fs) = Inr (typed oo rs ws hs, fs') \<and>
     set rs \<union> fst ` set ws = set oo \<and>
     (distinct seed \<longrightarrow> distinct (rs @ map fst ws))"
proof -
  obtain oo rs ws hs fs' where
    r: "run cs (fresh seed, fs) = Inr (typed oo rs ws hs, fs')"
    and i: "in_step oo rs ws hs" and d: "distinct seed \<longrightarrow> distinct oo"
    using run_fresh by blast
  have m: "mset (rs @ map fst ws) = mset oo"
    using i by (simp add: in_step_def)
  then have "set (rs @ map fst ws) = set oo"
    by (rule mset_eq_setD)
  then have "set rs \<union> fst ` set ws = set oo" by simp
  moreover have "distinct seed \<longrightarrow> distinct (rs @ map fst ws)"
    using d mset_eq_imp_distinct_iff [OF m] by blast
  ultimately show ?thesis using r by blast
qed

theorem pool_and_watched_partition_order_witness:
  "distinct [''Oz'', ''Rome'', ''Dark''] \<and>
   (\<exists>oo rs ws hs fs'.
     run [SelectShow 1 ''2024-05-01T20:00:00'', AddShow '' Lost '', UndoLast]
       (fresh [''Oz'', ''Rome'', ''Dark''], \<lparr>save_file = None, backup_file = None\<rparr>)
       = Inr (typed oo rs ws hs, fs') \<and>
     set rs \<union> fst ` set ws = set oo \<and> distinct (rs @ map fst ws))"
  using pool_and_watched_partition_order
    [of "[SelectShow 1 ''2024-05-01T20:00:00'', AddShow '' Lost '', UndoLast]"
        "[''Oz'', ''Rome'', ''Dark'']" "\<lparr>save_file = None, backup_file = None\<rparr>"]
  by simp

text \<open>
  The claim as stated asks for no duplicates after every run from every seed list. The
  constructor copies the seed list as it is: from \<^verbatim>\<open>["Oz", "Oz"]\<close>, one selection leaves
  \<^verbatim>\<open>Oz\<close> both in the pool and in the watched log.
\<close>

theorem duplicate_seed_duplicates_items:
  "run [SelectShow 0 ''2024-05-01T20:00:00'']
     (fresh [''Oz'', ''Oz''], \<lparr>save_file = None, backup_file = None\<rparr>)
   = Inr (typed [''Oz'', ''Oz''] [''Oz''] [(''Oz'', ''2024-05-01T20:00:00'')]
            [(''Oz'', ''2024-05-01T20:00:00'')],
          save_progress (typed [''Oz'', ''Oz''] [''Oz''] [(''Oz'', ''2024-05-01T20:00:00'')]
            [(''Oz'', ''2024-05-01T20:00:00'')]) \<lparr>save_file = None, backup_file = None\<rparr>)
   \<and> \<not> distinct ([''Oz''] @ map fst [(''Oz'', ''2024-05-01T20:00:00'')])"
  by code_simp

section \<open>Undo straight after a selection\<close>

text \<open>
  C2, as amended. Let the seed list name no show twice, let \<open>s\<close> be the selector after
  any run from the fresh selector, and let its pool be non-empty. Then \<^verbatim>\<open>select_show\<close>
  succeeds with a record, \<^verbatim>\<open>undo_last\<close> right after it succeeds and returns the same
  record, and the selector is again \<open>s\<close>: the pool has its former content and order,
  the watched log and the history their former lengths (and contents).
\<close>

theorem undo_after_select_restores:
  assumes d: "distinct seed"
    and r: "run cs (fresh seed, fs) = Inr (s, fs1)"
    and ne: "remaining_shows s \<noteq> JList []"
  shows "\<exists>sel s1 fs2 s2 fs3.
           select_show choice now s fs1 = Inr (sel, s1, fs2) \<and> sel \<noteq> JNull \<and>
           undo_last s1 fs2 = Inr (sel, s2, fs3) \<and>
           remaining_shows s2 = remaining_shows s \<and>
           py_len (watched_shows s2) = py_len (watched_shows s) \<and>
           py_len (history s2) = py_len (history s) \<and>
           s2 = s"
proof -
  obtain oo rs ws hs fs' where
    r': "run cs (fresh seed, fs) = Inr (typed oo rs ws hs, fs')"
    and i: "in_step oo rs ws hs" and d': "distinct seed \<longrightarrow> distinct oo"
    using run_fresh by blast
  have s: "s = typed oo rs ws hs" and "fs1 = fs'" using r r' by simp_all
  have doo: "distinct oo" using d d' by simp
  have rs: "rs \<noteq> []" using ne by (auto simp: s typed_def)
  define x where "x = rs ! (choice mod length rs)"
  define s1 where "s1 = typed oo (remove1 x rs) (ws @ [(x, now)]) (hs @ [(x, now)])"
  have x: "x \<in> set rs" using rs by (simp add: x_def)
  have sel: "select_show choice now s fs1 = Inr (record_of (x, now), s1, save_progress s1 fs1)"
    using rs by (simp add: s select_show_typed x_def s1_def Let_def)
  have i1: "in_step oo (remove1 x rs) (ws @ [(x, now)]) (hs @ [(x, now)])"
    by (rule in_step_select [OF i x])
  have xo: "x \<in> set oo" using in_step_subset [OF i] x by blast
  have m: "mset (rs @ map fst ws) = mset oo" using i by (simp add: in_step_def)
  have "distinct (rs @ map fst ws)" using doo mset_eq_imp_distinct_iff [OF m] by blast
  then have "x \<notin> fst ` set ws" using x by auto
  then have nw: "(x, now) \<notin> set ws" by force
  have sorted: "sorted_wrt (<) (map (rank oo) rs)" using i doo by (simp add: in_step_def)
  have again: "takeWhile (\<lambda>y. rank oo y \<le> rank oo x) (remove1 x rs) @
              x # dropWhile (\<lambda>y. rank oo y \<le> rank oo x) (remove1 x rs) = rs"
    by (rule insert_restores [OF sorted x])
  have "undo_last s1 (save_progress s1 fs1) =
          Inr (record_of (x, now), typed oo rs ws hs, save_progress (typed oo rs ws hs) (save_progress s1 fs1))"
    unfolding s1_def
    using undo_last_typed [of "hs @ [(x, now)]" "ws @ [(x, now)]" "remove1 x rs" oo]
      in_step_subset [OF i1] xo nw again
    by (simp add: Let_def remove1_append)
  then show ?thesis using sel by (simp add: s record_of_def selection_record_def)
qed


theorem undo_after_select_restores_witness:
  "distinct [''Oz'', ''Rome'', ''Dark''] \<and>
   run [SelectShow 0 ''2024-05-01T20:00:00'']
     (fresh [''Oz'', ''Rome'', ''Dark''], \<lparr>save_file = None, backup_file = None\<rparr>)
   = Inr (typed [''Oz'', ''Rome'', ''Dark''] [''Rome'', ''Dark'']
            [(''Oz'', ''2024-05-01T20:00:00'')] [(''Oz'', ''2024-05-01T20:00:00'')],
          save_progress (typed [''Oz'', ''Rome'', ''Dark''] [''Rome'', ''Dark'']
            [(''Oz'', ''2024-05-01T20:00:00'')] [(''Oz'', ''2024-05-01T20:00:00'')])
            \<lparr>save_file = None, backup_file = None\<rparr>) \<and>
   (\<exists>sel s1 fs2 fs3.
      select_show 1 ''2024-05-02T21:00:00''
        (typed [''Oz'', ''Rome'', ''Dark''] [''Rome'', ''Dark'']
            [(''Oz'', ''2024-05-01T20:00:00'')] [(''Oz'', ''2024-05-01T20:00:00'')])
        (save_progress (typed [''Oz'', ''Rome'', ''Dark''] [''Rome'', ''Dark'']
            [(''Oz'', ''2024-05-01T20:00:00'')] [(''Oz'', ''2024-05-01T20:00:00'')])
            \<lparr>save_file = None, backup_file = None\<rparr>)
        = Inr (sel, s1, fs2) \<and> sel \<noteq> JNull \<and>
      undo_last s1 fs2 =
        Inr (sel, typed [''Oz'', ''Rome'', ''Dark''] [''Rome'', ''Dark'']
            [(''Oz'', ''2024-05-01T20:00:00'')] [(''Oz'', ''2024-05-01T20:00:00'')], fs3))"
proof -
  let ?seed = "[''Oz'', ''Rome'', ''Dark'']"
  let ?fs = "\<lparr>save_file = None, backup_file = None\<rparr>"
  let ?s = "typed ?seed [''Rome'', ''Dark'']
            [(''Oz'', ''2024-05-01T20:00:00'')] [(''Oz'', ''2024-05-01T20:00:00'')]"
  have d: "distinct ?seed" by simp
  have r: "run [SelectShow 0 ''2024-05-01T20:00:00''] (fresh ?seed, ?fs)
           = Inr (?s, save_progress ?s ?fs)"
    by code_simp
  have ne: "remaining_shows ?s \<noteq> JList []" by (simp add: typed_def)
  from undo_after_select_restores [OF d r ne, of 1 "''2024-05-02T21:00:00''"]
  show ?thesis using d r by blast
qed

text \<open>
  The claim as stated covers every seed list. From \<^verbatim>\<open>["Oz", "Rome", "Oz"]\<close>, selecting
  \<^verbatim>\<open>Rome\<close> and undoing it puts \<^verbatim>\<open>Rome\<close> after both \<^verbatim>\<open>Oz\<close>: no element of the pool has
  a rank above 1, the rank of \<^verbatim>\<open>Rome\<close>, since \<^verbatim>\<open>index\<close> gives both \<^verbatim>\<open>Oz\<close> rank 0.
\<close>

theorem duplicate_seed_undo_reorders:
  "run [] (fresh [''Oz'', ''Rome'', ''Oz''], \<lparr>save_file = None, backup_file = None\<rparr>)
   = Inr (fresh [''Oz'', ''Rome'', ''Oz''], \<lparr>save_file = None, backup_file = None\<rparr>) \<and>
   remaining_shows (fresh [''Oz'', ''Rome'', ''Oz'']) = JList [JStr ''Oz'', JStr ''Rome'', JStr ''Oz''] \<and>
   select_show 1 ''2024-05-01T20:00:00'' (fresh [''Oz'', ''Rome'', ''Oz''])
     \<lparr>save_file = None, backup_file = None\<rparr>
   = Inr (record_of (''Rome'', ''2024-05-01T20:00:00''),
          typed [''Oz'', ''Rome'', ''Oz''] [''Oz'', ''Oz'']
            [(''Rome'', ''2024-05-01T20:00:00'')] [(''Rome'', ''2024-05-01T20:00:00'')],
          save_progress (typed [''Oz'', ''Rome'', ''Oz''] [''Oz'', ''Oz'']
            [(''Rome'', ''2024-05-01T20:00:00'')] [(''Rome'', ''2024-05-01T20:00:00'')])
            \<lparr>save_file = None, backup_file = None\<rparr>) \<and>
   (case undo_last
      (typed [''Oz'', ''Rome'', ''Oz''] [''Oz'', ''Oz'']
            [(''Rome'', ''2024-05-01T20:00:00'')] [(''Rome'', ''2024-05-01T20:00:00'')])
      (save_progress (typed [''Oz'', ''Rome'', ''Oz''] [''Oz'', ''Oz'']
            [(''Rome'', ''2024-05-01T20:00:00'')] [(''Rome'', ''2024-05-01T20:00:00'')])
            \<lparr>save_file = None, backup_file = None\<rparr>)
    of Inl e \<Rightarrow> JNull | Inr (sel, s2, fs3) \<Rightarrow> remaining_shows s2)
   = JList [JStr ''Oz'', JStr ''Oz'', JStr ''Rome'']"
  by code_simp

section \<open>The pool stays in rank order\<close>

text \<open>
  C5, as amended. After any run from a selector built from a seed list where no save file
  exists (the empty run is the state after construction): when the seed list names no
  show twice, the ranks of the pool's names in the original order are in rising order;
  and for every seed list, when the history is not empty \<^verbatim>\<open>undo_last\<close> puts the restored
  name right before the first name of the pool whose rank is above its own, at the end
  when there is none, and never simply appends. \<open>list_index_strs\<close> shows that \<open>rank\<close>
  is what \<^verbatim>\<open>original_order.index\<close> returns.
\<close>

theorem pool_sorted_by_rank:
  "\<exists>oo rs ws hs fs'.
     run cs (fresh seed, fs) = Inr (typed oo rs ws hs, fs') \<and>
     (distinct seed \<longrightarrow> sorted (map (rank oo) rs)) \<and>
     (hs \<noteq> [] \<longrightarrow>
        (\<exists>fs''.
           undo_last (typed oo rs ws hs) fs' =
             Inr (record_of (last hs),
                  typed oo
                    (takeWhile (\<lambda>y. rank oo y \<le> rank oo (fst (last hs))) rs @
                     fst (last hs) #
                     dropWhile (\<lambda>y. rank oo y \<le> rank oo (fst (last hs))) rs)
                    (remove1 (last hs) ws) (butlast hs),
                  fs'')))"
proof -
  obtain oo rs ws hs fs' where
    r: "run cs (fresh seed, fs) = Inr (typed oo rs ws hs, fs')"
    and i: "in_step oo rs ws hs" and d: "distinct seed \<longrightarrow> distinct oo"
    using run_fresh by blast
  have a: "distinct seed \<longrightarrow> sorted (map (rank oo) rs)"
    using i d by (auto simp: in_step_def intro: strict_sorted_imp_sorted)
  have b: "\<exists>fs''.
           undo_last (typed oo rs ws hs) fs' =
             Inr (record_of (last hs),
                  typed oo
                    (takeWhile (\<lambda>y. rank oo y \<le> rank oo (fst (last hs))) rs @
                     fst (last hs) #
                     dropWhile (\<lambda>y. rank oo y \<le> rank oo (fst (last hs))) rs)
                    (remove1 (last hs) ws) (butlast hs),
                  fs'')" if h: "hs \<noteq> []"
  proof -
    note u = in_step_undo [OF i h]
    have "fst (last hs) \<in> set oo"
      using u(1) in_step_watched_subset [OF i] by blast
    then show ?thesis
      using undo_last_typed [OF h u(1) in_step_subset [OF i], of fs']
      by (simp add: Let_def)
  qed
  show ?thesis using r a b by blast
qed

theorem pool_sorted_by_rank_witness:
  "distinct [''Oz'', ''Rome'', ''Dark''] \<and>
   (\<exists>oo rs ws hs fs'.
     run [SelectShow 1 ''2024-05-01T20:00:00'', AddShow ''Lost'', SelectShow 0 ''2024-05-02T20:00:00'']
       (fresh [''Oz'', ''Rome'', ''Dark''], \<lparr>save_file = None, backup_file = None\<rparr>)
       = Inr (typed oo rs ws hs, fs') \<and>
     sorted (map (rank oo) rs) \<and>
     (hs \<noteq> [] \<longrightarrow>
        (\<exists>fs''.
           undo_last (typed oo rs ws hs) fs' =
             Inr (record_of (last hs),
                  typed oo
                    (takeWhile (\<lambda>y. rank oo y \<le> rank oo (fst (last hs))) rs @
                     fst (last hs) #
                     dropWhile (\<lambda>y. rank oo y \<le> rank oo (fst (last hs))) rs)
                    (remove1 (last hs) ws) (butlast hs),
                  fs''))))"
  using pool_sorted_by_rank
    [of "[SelectShow 1 ''2024-05-01T20:00:00'', AddShow ''Lost'', SelectShow 0 ''2024-05-02T20:00:00'']"
        "[''Oz'', ''Rome'', ''Dark'']" "\<lparr>save_file = None, backup_file = None\<rparr>"]
  by simp

text \<open>
  The claim as stated covers every seed list. With \<^verbatim>\<open>["Oz", "Rome", "Oz"]\<close> the pool is
  out of rank order as soon as the selector is built: the ranks are 0, 1, 0.
\<close>

theorem duplicate_seed_pool_unsorted:
  "run [] (fresh [''Oz'', ''Rome'', ''Oz''], \<lparr>save_file = None, backup_file = None\<rparr>)
   = Inr (typed [''Oz'', ''Rome'', ''Oz''] [''Oz'', ''Rome'', ''Oz''] [] [],
          \<lparr>save_file = None, backup_file = None\<rparr>) \<and>
   map (rank [''Oz'', ''Rome'', ''Oz'']) [''Oz'', ''Rome'', ''Oz''] = [0, 1, 0] \<and>
   \<not> sorted (map (rank [''Oz'', ''Rome'', ''Oz'']) [''Oz'', ''Rome'', ''Oz''])"
  by code_simp

section \<open>Adding a show\<close>

text \<open>The string builtins beyond ASCII: a no-break space and a next-line character are
  stripped, a capital E with acute accent is lowered, and the multiplication sign, the
  sharp s and the y with diaeresis are their own lower-case forms.\<close>

lemma latin1_examples:
  "strip (CHR 0xA0 # ''Lost'' @ [CHR 0x85]) = ''Lost''"
  "lower (CHR 0xC9 # ''CLAIR'') = CHR 0xE9 # ''clair''"
  "lower [CHR 0xD7, CHR 0xDF, CHR 0xFF] = [CHR 0xD7, CHR 0xDF, CHR 0xFF]"
  by code_simp+

lemma strip_parts:
  "\<exists>pre suf. name = pre @ strip name @ suf \<and> (\<forall>c\<in>set pre. isspace c) \<and> (\<forall>c\<in>set suf. isspace c)"
proof -
  define d where "d = dropWhile isspace name"
  have 1: "name = takeWhile isspace name @ d" by (simp add: d_def)
  have "rev (takeWhile isspace (rev d) @ dropWhile isspace (rev d)) = d"
    by (simp only: takeWhile_dropWhile_id rev_rev_ident)
  then have 2: "d = strip name @ rev (takeWhile isspace (rev d))"
    by (simp only: rev_append strip_def d_def)
  have "name = takeWhile isspace name @ strip name @ rev (takeWhile isspace (rev d))"
    using 1 2 by metis
  moreover have "\<forall>c\<in>set (takeWhile isspace name). isspace c"
    by (auto dest: set_takeWhileD)
  moreover have "\<forall>c\<in>set (rev (takeWhile isspace (rev d))). isspace c"
    by (auto dest: set_takeWhileD)
  ultimately show ?thesis by blast
qed

lemma strip_ends:
  assumes "strip name \<noteq> []"
  shows "\<not> isspace (hd (strip name))" and "\<not> isspace (last (strip name))"
proof -
  define d where "d = dropWhile isspace name"
  define e where "e = dropWhile isspace (rev d)"
  have s: "strip name = rev e" by (simp add: strip_def d_def e_def)
  then have e: "e \<noteq> []" using assms by simp
  then have "\<not> isspace (hd e)" unfolding e_def by (rule hd_dropWhile)
  then show "\<not> isspace (last (strip name))" using e by (simp add: s last_rev)
  have dne: "d \<noteq> []" using e by (auto simp: e_def)
  have "last e = last (rev d)"
    using e unfolding e_def
    by (metis append_Nil2 last_appendR takeWhile_dropWhile_id)
  then have "hd (strip name) = hd d" using e dne by (simp add: s hd_rev last_rev)
  moreover have "\<not> isspace (hd d)" using dne unfolding d_def by (rule hd_dropWhile)
  ultimately show "\<not> isspace (hd (strip name))" by simp
qed

text \<open>
  C8. Take any selector whose original order is a list of names and whose pool is a
  list, and any name. The name \<^verbatim>\<open>add_show\<close> works with is the given one without its
  leading and trailing whitespace: the given name is whitespace, then the trimmed name,
  then whitespace, and a non-empty trimmed name neither starts nor ends with whitespace.
  When the trimmed name is empty or some name of the original order has the same
  lower-case form, \<^verbatim>\<open>add_show\<close> returns \<^verbatim>\<open>False\<close> and the selector and the files are
  untouched. Otherwise it returns \<^verbatim>\<open>True\<close>, the trimmed name is appended to the original
  order and to the pool, the total is the new length of the original order (one more
  than the old length), the watched log and the history are untouched, and the new
  state is saved.
\<close>

theorem add_show_trims_rejects_or_appends:
  assumes oo: "original_order s = JList (map JStr oo)"
    and rs: "remaining_shows s = JList rs"
  shows "(\<exists>pre suf. name = pre @ strip name @ suf \<and>
            (\<forall>c\<in>set pre. isspace c) \<and> (\<forall>c\<in>set suf. isspace c)) \<and>
         (strip name \<noteq> [] \<longrightarrow> \<not> isspace (hd (strip name)) \<and> \<not> isspace (last (strip name))) \<and>
         add_show name s fs =
           (if strip name = [] \<or> (\<exists>x\<in>set oo. lower x = lower (strip name))
            then Inr (False, s, fs)
            else Inr (True,
                      s\<lparr>original_order := JList (map JStr (oo @ [strip name])),
                        remaining_shows := JList (rs @ [JStr (strip name)]),
                        total_shows := length oo + 1\<rparr>,
                      save_progress
                        (s\<lparr>original_order := JList (map JStr (oo @ [strip name])),
                          remaining_shows := JList (rs @ [JStr (strip name)]),
                          total_shows := length oo + 1\<rparr>) fs))"
proof -
  have "add_show name s fs =
           (if strip name = [] \<or> (\<exists>x\<in>set oo. lower x = lower (strip name))
            then Inr (False, s, fs)
            else Inr (True,
                      s\<lparr>original_order := JList (map JStr (oo @ [strip name])),
                        remaining_shows := JList (rs @ [JStr (strip name)]),
                        total_shows := length oo + 1\<rparr>,
                      save_progress
                        (s\<lparr>original_order := JList (map JStr (oo @ [strip name])),
                          remaining_shows := JList (rs @ [JStr (strip name)]),
                          total_shows := length oo + 1\<rparr>) fs))"
    by (simp add: add_show_def oo rs any_lower_eq_strs Let_def image_iff eq_commute)
  then show ?thesis using strip_parts [of name] strip_ends [of name] by blast
qed


theorem add_show_trims_rejects_or_appends_witness:
  "add_show ''  Lost '' (typed [''Oz''] [''Oz''] [] []) \<lparr>save_file = None, backup_file = None\<rparr>
     = Inr (True, typed [''Oz'', ''Lost''] [''Oz'', ''Lost''] [] [],
            save_progress (typed [''Oz'', ''Lost''] [''Oz'', ''Lost''] [] [])
              \<lparr>save_file = None, backup_file = None\<rparr>) \<and>
   add_show ''Breaking Bad''
       (typed [''Oz'', ''breaking bad''] [''Oz''] [(''breaking bad'', ''2024-05-01T20:00:00'')]
          [(''breaking bad'', ''2024-05-01T20:00:00'')])
       \<lparr>save_file = None, backup_file = None\<rparr>
     = Inr (False,
            typed [''Oz'', ''breaking bad''] [''Oz''] [(''breaking bad'', ''2024-05-01T20:00:00'')]
              [(''breaking bad'', ''2024-05-01T20:00:00'')],
            \<lparr>save_file = None, backup_file = None\<rparr>) \<and>
   add_show (CHR 0xA0 # CHR 0xC9 # ''CLAIR'' @ [CHR 0x85])
       (typed [CHR 0xE9 # ''clair''] [CHR 0xE9 # ''clair''] [] [])
       \<lparr>save_file = None, backup_file = None\<rparr>
     = Inr (False, typed [CHR 0xE9 # ''clair''] [CHR 0xE9 # ''clair''] [] [],
            \<lparr>save_file = None, backup_file = None\<rparr>)"
proof -
  let ?fs = "\<lparr>save_file = None, backup_file = None\<rparr>"
  let ?s1 = "typed [''Oz''] [''Oz''] [] []"
  let ?s2 = "typed [''Oz'', ''breaking bad''] [''Oz''] [(''breaking bad'', ''2024-05-01T20:00:00'')]
          [(''breaking bad'', ''2024-05-01T20:00:00'')]"
  let ?s3 = "typed [CHR 0xE9 # ''clair''] [CHR 0xE9 # ''clair''] [] []"
  have t1: "strip ''  Lost '' = ''Lost''" by code_simp
  have t2: "strip ''Breaking Bad'' = ''Breaking Bad''" by code_simp
  have t3: "strip (CHR 0xA0 # CHR 0xC9 # ''CLAIR'' @ [CHR 0x85]) = CHR 0xC9 # ''CLAIR''"
    by code_simp
  have l1: "lower ''Oz'' \<noteq> lower ''Lost''" by code_simp
  have l2: "lower ''breaking bad'' = lower ''Breaking Bad''" by code_simp
  have l3: "lower (CHR 0xE9 # ''clair'') = lower (CHR 0xC9 # ''CLAIR'')" by code_simp
  have a1: "original_order ?s1 = JList (map JStr [''Oz''])" by (simp add: typed_def)
  have b1: "remaining_shows ?s1 = JList [JStr ''Oz'']" by (simp add: typed_def)
  have a2: "original_order ?s2 = JList (map JStr [''Oz'', ''breaking bad''])" by (simp add: typed_def)
  have b2: "remaining_shows ?s2 = JList [JStr ''Oz'']" by (simp add: typed_def)
  have a3: "original_order ?s3 = JList (map JStr [CHR 0xE9 # ''clair''])" by (simp add: typed_def)
  have b3: "remaining_shows ?s3 = JList [JStr (CHR 0xE9 # ''clair'')]" by (simp add: typed_def)
  from add_show_trims_rejects_or_appends [OF a1 b1, of "''  Lost ''" ?fs]
  have "add_show ''  Lost '' ?s1 ?fs
     = Inr (True, typed [''Oz'', ''Lost''] [''Oz'', ''Lost''] [] [],
            save_progress (typed [''Oz'', ''Lost''] [''Oz'', ''Lost''] [] []) ?fs)"
    using l1 by (simp add: t1 typed_def)
  moreover
  from add_show_trims_rejects_or_appends [OF a2 b2, of "''Breaking Bad''" ?fs]
  have "add_show ''Breaking Bad'' ?s2 ?fs = Inr (False, ?s2, ?fs)"
    using l2 by (simp add: t2)
  moreover
  from add_show_trims_rejects_or_appends
    [OF a3 b3, of "CHR 0xA0 # CHR 0xC9 # ''CLAIR'' @ [CHR 0x85]" ?fs]
  have "add_show (CHR 0xA0 # CHR 0xC9 # ''CLAIR'' @ [CHR 0x85]) ?s3 ?fs = Inr (False, ?s3, ?fs)"
    using l3 unfolding t3 by simp
  ultimately show ?thesis by blast
qed

section \<open>Loading with recovery\<close>

lemma renamed: "save_file (fs :: files) = Some body \<Longrightarrow>
  rename_to_backup fs = \<lparr>save_file = None, backup_file = Some body\<rparr>"
  by (cases fs) (simp add: rename_to_backup_def)

lemma recover_after_failed_backup:
  assumes "save_file (fs :: files) = Some body" and "read_backup body = Inl e1"
  shows "recover data seed fs =
     (case data_recovery data seed of
        Inl e \<Rightarrow> (full_reset seed,
                   save_progress (full_reset seed) \<lparr>save_file = None, backup_file = Some body\<rparr>)
      | Inr r \<Rightarrow> (r, save_progress r \<lparr>save_file = None, backup_file = Some body\<rparr>))"
  using assms by (simp add: recover_def renamed Let_def split: sum.splits)

lemma new_selector_recovers:
  assumes "save_file (fs :: files) = Some body"
    and "try_primary body = Inl (e0, data)" and "caught_by_load e0"
    and "read_backup body = Inl e1"
  shows "new_selector seed fs =
     Inr (case data_recovery data seed of
        Inl e \<Rightarrow> (full_reset seed,
                   save_progress (full_reset seed) \<lparr>save_file = None, backup_file = Some body\<rparr>)
      | Inr r \<Rightarrow> (r, save_progress r \<lparr>save_file = None, backup_file = Some body\<rparr>))"
  using assms
  by (simp add: new_selector_def load_progress_def recover_after_failed_backup)

text \<open>
  C7. Let the save file exist, let the outer \<^verbatim>\<open>try\<close> fail with an exception its handler
  names, let the backup attempt fail, and let the salvage attempt raise. Then the
  constructor still returns: the original order and the pool are copies of the seed list,
  the watched log and the history are empty, the total is the length of the seed list,
  this state is what the save file now holds, and the former save file is the backup.
\<close>

theorem failed_recovery_resets_to_seed:
  assumes "save_file (fs :: files) = Some body"
    and "try_primary body = Inl (e0, data)" and "caught_by_load e0"
    and "read_backup body = Inl e1"
    and "data_recovery data seed = Inl e2"
  shows "new_selector seed fs =
     Inr (\<lparr>original_order = JList (map JStr seed),
           remaining_shows = JList (map JStr seed),
           watched_shows = JList [],
           total_shows = length seed,
           history = JList []\<rparr>,
          \<lparr>save_file = Some (Wellformed (JObj
             [(''original_order'', JList (map JStr seed)),
              (''remaining'', JList (map JStr seed)),
              (''watched'', JList []),
              (''history'', JList [])])),
           backup_file = Some body\<rparr>)"
  using assms
  by (simp add: new_selector_recovers [OF assms(1-4)] full_reset_def save_progress_def)

theorem failed_recovery_resets_to_seed_witness:
  "new_selector [''Oz'', ''Rome'']
     \<lparr>save_file = Some (Wellformed (JObj [(''remaining'', JNum 5)])),
      backup_file = None\<rparr> =
     Inr (\<lparr>original_order = JList [JStr ''Oz'', JStr ''Rome''],
           remaining_shows = JList [JStr ''Oz'', JStr ''Rome''],
           watched_shows = JList [],
           total_shows = 2,
           history = JList []\<rparr>,
          \<lparr>save_file = Some (Wellformed (JObj
             [(''original_order'', JList [JStr ''Oz'', JStr ''Rome'']),
              (''remaining'', JList [JStr ''Oz'', JStr ''Rome'']),
              (''watched'', JList []),
              (''history'', JList [])])),
           backup_file = Some (Wellformed (JObj [(''remaining'', JNum 5)]))\<rparr>)"
proof -
  let ?body = "Wellformed (JObj [(''remaining'', JNum 5)])"
  let ?fs = "\<lparr>save_file = Some ?body, backup_file = None\<rparr>"
  have 1: "save_file ?fs = Some ?body" by simp
  have 2: "try_primary ?body = Inl (KeyError, Some (JObj [(''remaining'', JNum 5)]))"
    by code_simp
  have 3: "caught_by_load KeyError" by (simp add: caught_by_load_def)
  have 4: "read_backup ?body = Inl KeyError" by code_simp
  have 5: "data_recovery (Some (JObj [(''remaining'', JNum 5)])) [''Oz'', ''Rome''] = Inl TypeError"
    by code_simp
  from failed_recovery_resets_to_seed [OF 1 2 3 4 5] show ?thesis by simp
qed


subsection \<open>What the salvage attempt builds\<close>




lemma mem_strs [simp]: "list_ex (\<lambda>y. py_same y (JStr x)) (map JStr order) \<longleftrightarrow> x \<in> set order"
  by (induction order) (auto simp: py_same_def)


lemma shows_of_length: "shows_of ws = Inr xs \<Longrightarrow> length xs = length ws"
  by (induction ws arbitrary: xs) (auto split: sum.splits)







section \<open>Where the load protocol lets a malformed state through\<close>

text \<open>
  C3. The save file below parses and has the four keys, but \<^verbatim>\<open>remaining\<close> is the number
  5, so the checks on the primary file reject it (\<^verbatim>\<open>ValueError\<close>). The handler renames
  it to the backup path and reads it back with the key test alone: the constructor
  adopts it, the pool of the selector is the number 5, and nothing is saved.
\<close>

theorem backup_adopted_without_type_check:
  "validate_primary
     (JObj [(''original_order'', JList [JStr ''Oz'']), (''remaining'', JNum 5),
            (''watched'', JList []), (''history'', JList [])]) = Inl ValueError \<and>
   new_selector [''Oz'']
     \<lparr>save_file = Some (Wellformed
        (JObj [(''original_order'', JList [JStr ''Oz'']), (''remaining'', JNum 5),
               (''watched'', JList []), (''history'', JList [])])),
      backup_file = None\<rparr>
   = Inr (\<lparr>original_order = JList [JStr ''Oz''], remaining_shows = JNum 5,
           watched_shows = JList [], total_shows = 1, history = JList []\<rparr>,
          \<lparr>save_file = None,
           backup_file = Some (Wellformed
             (JObj [(''original_order'', JList [JStr ''Oz'']), (''remaining'', JNum 5),
                    (''watched'', JList []), (''history'', JList [])]))\<rparr>)"
  by code_simp

text \<open>
  C4. Three save files that pass the parse and both checks, so that the constructor
  adopts them as they are. In the first the pool holds a name the original order lacks:
  the rank lookup inside the loop of \<^verbatim>\<open>undo_last\<close> raises \<^verbatim>\<open>ValueError\<close>. In the second
  the history holds a record the watched log lacks: \<^verbatim>\<open>watched_shows.remove\<close> raises
  \<^verbatim>\<open>ValueError\<close>. In the third the original order holds a number: \<^verbatim>\<open>add_show\<close> raises
  \<^verbatim>\<open>AttributeError\<close> when it lowers it. Nothing in the menu loop catches them.
\<close>

theorem commands_raise_on_adopted_state:
  "new_selector [''Oz'']
     \<lparr>save_file = Some (Wellformed
        (JObj [(''original_order'', JList [JStr ''Oz'']),
               (''remaining'', JList [JStr ''Rome'']),
               (''watched'', JList [selection_record (JStr ''Oz'') ''2024-05-01T20:00:00'']),
               (''history'', JList [selection_record (JStr ''Oz'') ''2024-05-01T20:00:00''])])),
      backup_file = None\<rparr>
   = Inr (\<lparr>original_order = JList [JStr ''Oz''],
           remaining_shows = JList [JStr ''Rome''],
           watched_shows = JList [selection_record (JStr ''Oz'') ''2024-05-01T20:00:00''],
           total_shows = 1,
           history = JList [selection_record (JStr ''Oz'') ''2024-05-01T20:00:00'']\<rparr>,
          \<lparr>save_file = Some (Wellformed
             (JObj [(''original_order'', JList [JStr ''Oz'']),
               (''remaining'', JList [JStr ''Rome'']),
               (''watched'', JList [selection_record (JStr ''Oz'') ''2024-05-01T20:00:00'']),
               (''history'', JList [selection_record (JStr ''Oz'') ''2024-05-01T20:00:00''])])),
           backup_file = None\<rparr>) \<and>
   undo_last
     \<lparr>original_order = JList [JStr ''Oz''],
      remaining_shows = JList [JStr ''Rome''],
      watched_shows = JList [selection_record (JStr ''Oz'') ''2024-05-01T20:00:00''],
      total_shows = 1,
      history = JList [selection_record (JStr ''Oz'') ''2024-05-01T20:00:00'']\<rparr>
     \<lparr>save_file = Some (Wellformed
             (JObj [(''original_order'', JList [JStr ''Oz'']),
               (''remaining'', JList [JStr ''Rome'']),
               (''watched'', JList [selection_record (JStr ''Oz'') ''2024-05-01T20:00:00'']),
               (''history'', JList [selection_record (JStr ''Oz'') ''2024-05-01T20:00:00''])])),
           backup_file = None\<rparr>
   = Inl ValueError \<and>
   new_selector [''Oz'']
     \<lparr>save_file = Some (Wellformed
        (JObj [(''original_order'', JList [JStr ''Oz'']),
               (''remaining'', JList []),
               (''watched'', JList []),
               (''history'', JList [selection_record (JStr ''Oz'') ''2024-05-01T20:00:00''])])),
      backup_file = None\<rparr>
   = Inr (\<lparr>original_order = JList [JStr ''Oz''],
           remaining_shows = JList [],
           watched_shows = JList [],
           total_shows = 1,
           history = JList [selection_record (JStr ''Oz'') ''2024-05-01T20:00:00'']\<rparr>,
          \<lparr>save_file = Some (Wellformed
             (JObj [(''original_order'', JList [JStr ''Oz'']),
               (''remaining'', JList []),
               (''watched'', JList []),
               (''history'', JList [selection_record (JStr ''Oz'') ''2024-05-01T20:00:00''])])),
           backup_file = None\<rparr>) \<and>
   undo_last
     \<lparr>original_order = JList [JStr ''Oz''],
      remaining_shows = JList [],
      watched_shows = JList [],
      total_shows = 1,
      history = JList [selection_record (JStr ''Oz'') ''2024-05-01T20:00:00'']\<rparr>
     \<lparr>save_file = Some (Wellformed
             (JObj [(''original_order'', JList [JStr ''Oz'']),
               (''remaining'', JList []),
               (''watched'', JList []),
               (''history'', JList [selection_record (JStr ''Oz'') ''2024-05-01T20:00:00''])])),
           backup_file = None\<rparr>
   = Inl ValueError \<and>
   new_selector [''Oz'']
     \<lparr>save_file = Some (Wellformed
        (JObj [(''original_order'', JList [JNum 5]),
               (''remaining'', JList [JNum 5]),
               (''watched'', JList []),
               (''history'', JList [])])),
      backup_file = None\<rparr>
   = Inr (\<lparr>original_order = JList [JNum 5],
           remaining_shows = JList [JNum 5],
           watched_shows = JList [],
           total_shows = 1,
           history = JList []\<rparr>,
          \<lparr>save_file = Some (Wellformed
             (JObj [(''original_order'', JList [JNum 5]),
               (''remaining'', JList [JNum 5]),
               (''watched'', JList []),
               (''history'', JList [])])),
           backup_file = None\<rparr>) \<and>
   add_show ''Rome''
     \<lparr>original_order = JList [JNum 5],
      remaining_shows = JList [JNum 5],
      watched_shows = JList [],
      total_shows = 1,
      history = JList []\<rparr>
     \<lparr>save_file = Some (Wellformed
             (JObj [(''original_order'', JList [JNum 5]),
               (''remaining'', JList [JNum 5]),
               (''watched'', JList []),
               (''history'', JList [])])),
           backup_file = None\<rparr>
   = Inl AttributeError"
  by code_simp

section \<open>Progress statistics\<close>

lemma bit_length_bounds:
  "0 < n \<Longrightarrow> 2 ^ (bit_length n - 1) \<le> n \<and> n < 2 ^ bit_length n"
proof (induction n rule: bit_length.induct)
  case (1 n)
  show ?case
  proof (cases "n = 1")
    case True
    then show ?thesis by (simp add: bit_length.simps [of 1] bit_length.simps [of 0])
  next
    case False
    then have h: "0 < n div 2" using "1.prems" by linarith
    have ih: "2 ^ (bit_length (n div 2) - 1) \<le> n div 2 \<and> n div 2 < 2 ^ bit_length (n div 2)"
      using "1.IH" "1.prems" h by simp
    have b: "bit_length n = Suc (bit_length (n div 2))"
      using "1.prems" by (subst bit_length.simps) simp
    have pos: "0 < bit_length (n div 2)"
      using h by (subst bit_length.simps) simp
    have "2 ^ bit_length (n div 2) \<le> n"
    proof -
      have "(2::int) ^ bit_length (n div 2) = 2 * 2 ^ (bit_length (n div 2) - 1)"
        using pos by (cases "bit_length (n div 2)") simp_all
      also have "\<dots> \<le> 2 * (n div 2)" using ih by simp
      also have "\<dots> \<le> n" by linarith
      finally show ?thesis .
    qed
    moreover have "n < 2 * 2 ^ bit_length (n div 2)"
      using ih by linarith
    ultimately show ?thesis by (simp add: b)
  qed
qed

lemma ilog2_bounds:
  assumes "0 < x"
  shows "2 powi ilog2 x \<le> x" and "x < 2 powi (ilog2 x + 1)"
proof -
  obtain p q where pq: "quotient_of x = (p, q)" by (cases "quotient_of x")
  have q: "0 < q" using pq quotient_of_denom_pos by blast
  have x: "x = of_int p / of_int q" using pq quotient_of_div by blast
  have p: "0 < p" using assms q x by (simp add: zero_less_divide_iff)
  define a where "a = bit_length p"
  define b where "b = bit_length q"
  define d where "d = int a - int b"
  note bp = bit_length_bounds [OF p, folded a_def]
  note bq = bit_length_bounds [OF q, folded b_def]
  have a0: "0 < a" using p unfolding a_def by (subst bit_length.simps) simp
  have b0: "0 < b" using q unfolding b_def by (subst bit_length.simps) simp
  have il: "ilog2 x = (if 2 powi d \<le> x then d else d - 1)"
    by (simp add: ilog2_def pq d_def a_def b_def Let_def)
  have up: "x < 2 powi (d + 1)"
  proof -
    have "of_int p < (2::rat) ^ a" using bp by (metis of_int_less_numeral_power_cancel_iff)
    moreover have "(2::rat) ^ (b - 1) \<le> of_int q" using bq by (metis numeral_power_le_of_int_cancel_iff)
    ultimately have "of_int p / of_int q < (2::rat) ^ a / 2 ^ (b - 1)"
      using q p by (intro frac_less) simp_all
    also have "\<dots> = 2 powi (int a - int (b - 1))"
      by (simp add: power_int_diff)
    also have "int a - int (b - 1) = d + 1" using b0 by (simp add: d_def)
    finally show ?thesis using x by simp
  qed
  have low: "2 powi (d - 1) \<le> x"
  proof -
    have "(2::rat) ^ (a - 1) \<le> of_int p" using bp by (metis numeral_power_le_of_int_cancel_iff)
    moreover have "of_int q < (2::rat) ^ b" using bq by (metis of_int_less_numeral_power_cancel_iff)
    ultimately have "(2::rat) ^ (a - 1) / 2 ^ b \<le> of_int p / of_int q"
      using q p by (intro frac_le) simp_all
    moreover have "(2::rat) ^ (a - 1) / 2 ^ b = 2 powi (int (a - 1) - int b)"
      by (simp add: power_int_diff)
    moreover have "int (a - 1) - int b = d - 1" using a0 by (simp add: d_def)
    ultimately show ?thesis using x by simp
  qed
  show "2 powi ilog2 x \<le> x" using il low by simp
  have "2 powi d \<le> x \<or> x < 2 powi d" by linarith
  then show "x < 2 powi (ilog2 x + 1)" using il up by auto
qed


lemma round_even_near: "\<bar>of_int (round_even y) - y\<bar> \<le> 1 / 2"
proof -
  define f where "f = \<lfloor>y\<rfloor>"
  have "of_int f \<le> y" "y < of_int f + 1" unfolding f_def by linarith+
  then show ?thesis
    unfolding round_even_def Let_def f_def [symmetric]
    by (auto simp: abs_if) 
qed

lemma fl_error:
  assumes "0 \<le> x"
  shows "\<bar>fl x - x\<bar> \<le> x / 2 ^ 53"
proof (cases "x = 0")
  case True
  then show ?thesis by (simp add: fl_def)
next
  case False
  then have pos: "0 < x" using assms by simp
  define e where "e = ilog2 x"
  define u :: rat where "u = 2 powi (e - 52)"
  have u: "0 < u" by (simp add: u_def)
  have f: "fl x = of_int (round_even (x / u)) * u"
    using pos by (simp add: fl_def u_def e_def Let_def)
  have "fl x - x = (of_int (round_even (x / u)) - x / u) * u"
    using u by (simp add: f left_diff_distrib)
  then have "\<bar>fl x - x\<bar> = \<bar>of_int (round_even (x / u)) - x / u\<bar> * u"
    using u by (simp add: abs_mult)
  also have "\<dots> \<le> 1 / 2 * u"
    using round_even_near [of "x / u"] u by (intro mult_right_mono) simp_all
  also have "\<dots> = 2 powi e / 2 ^ 53"
    by (simp add: u_def power_int_diff)
  also have "\<dots> \<le> x / 2 ^ 53"
    using ilog2_bounds(1) [OF pos] by (simp add: e_def divide_right_mono)
  finally show ?thesis .
qed

lemma percent_float_error:
  assumes "t \<noteq> 0"
  shows "\<bar>py_fmul (py_truediv w t) 100 - 100 * (of_nat w / of_nat t)\<bar>
           \<le> 100 * (of_nat w / of_nat t) / 2 ^ 51"
proof -
  define r :: rat where "r = of_nat w / of_nat t"
  define a where "a = fl r"
  define X where "X = fl (a * 100)"
  have r0: "0 \<le> r" by (simp add: r_def)
  have ea: "\<bar>a - r\<bar> \<le> r / 2 ^ 53" unfolding a_def by (rule fl_error [OF r0])
  have small: "r / 2 ^ 53 \<le> r" using r0 by (simp add: field_simps)
  have a0: "0 \<le> a" and a1: "a \<le> r + r / 2 ^ 53"
    using ea small by linarith+
  have eX: "\<bar>X - a * 100\<bar> \<le> a * 100 / 2 ^ 53"
    unfolding X_def using a0 by (intro fl_error) simp
  have "\<bar>X - 100 * r\<bar> \<le> \<bar>X - a * 100\<bar> + 100 * \<bar>a - r\<bar>"
    by (simp add: abs_if split: if_splits)
  also have "\<dots> \<le> a * 100 / 2 ^ 53 + 100 * (r / 2 ^ 53)"
    using eX ea by (intro add_mono) simp_all
  also have "\<dots> \<le> (r + r / 2 ^ 53) * 100 / 2 ^ 53 + 100 * (r / 2 ^ 53)"
    using a1 by (simp add: divide_right_mono)
  also have "\<dots> \<le> 100 * r / 2 ^ 51"
    using r0 by (simp add: field_simps)
  finally show ?thesis
    by (simp add: X_def a_def r_def py_fmul_def py_truediv_def)
qed

text \<open>The model against Python on a few values: \<^verbatim>\<open>0.1\<close>; \<^verbatim>\<open>(3 / 2000) * 100\<close>, which
  is the float just below 0.15, so that \<^verbatim>\<open>round\<close> gives \<^verbatim>\<open>0.1\<close>; and
  \<^verbatim>\<open>round((2 / 3) * 100, 1)\<close>, the float \<^verbatim>\<open>66.7\<close>.\<close>

lemma float_examples:
  "fl (1 / 10) = 3602879701896397 / 36028797018963968"
  "py_fmul (py_truediv 3 2000) 100 = 5404319552844595 / 36028797018963968"
  "py_round1 (py_fmul (py_truediv 3 2000) 100) = 3602879701896397 / 36028797018963968"
  "py_round1 (py_fmul (py_truediv 2 3) 100) = 4693595236650189 / 70368744177664"
  unfolding py_truediv_def of_nat_numeral by code_simp+

text \<open>
  C10. On any selector whose watched log and pool are lists, \<^verbatim>\<open>get_progress\<close> returns
  without raising, with the length of the watched log, the length of the pool and the
  total, and hands back the selector and the files untouched. When the total is zero the
  percentage is exactly 0.0 and nothing is divided. Otherwise the percentage is the
  float nearest to a decimal with one digit after the point, and that decimal is within
  one twentieth of the float Python computes for \<^verbatim>\<open>(watched / total) * 100\<close>: it is
  that number rounded to one decimal place. The float computed differs from the exact
  value of 100 times watched over total by at most that value divided by \<open>2 ^ 51\<close>.
\<close>

theorem get_progress_counts_and_percentage:
  assumes "watched_shows s = JList ws" and "remaining_shows s = JList rs"
  shows "\<exists>p. get_progress s fs =
             Inr (\<lparr>watched = length ws, remaining = length rs, total = total_shows s,
                   percentage = p\<rparr>, s, fs) \<and>
             (total_shows s = 0 \<longrightarrow> p = 0) \<and>
             (total_shows s \<noteq> 0 \<longrightarrow>
                (\<exists>k::int. p = fl (of_int k / 10) \<and>
                   \<bar>of_int k / 10 - py_fmul (py_truediv (length ws) (total_shows s)) 100\<bar>
                     \<le> 1 / 20) \<and>
                \<bar>py_fmul (py_truediv (length ws) (total_shows s)) 100 -
                   100 * (of_nat (length ws) / of_nat (total_shows s))\<bar>
                  \<le> 100 * (of_nat (length ws) / of_nat (total_shows s)) / 2 ^ 51)"
proof (cases "total_shows s = 0")
  case True
  then show ?thesis using assms by (simp add: get_progress_def)
next
  case False
  define x where "x = py_fmul (py_truediv (length ws) (total_shows s)) 100"
  define k where "k = round_even (x * 10)"
  have "\<bar>of_int k - x * 10\<bar> \<le> 1 / 2" unfolding k_def by (rule round_even_near)
  then have near: "\<bar>of_int k / 10 - x\<bar> \<le> 1 / 20" by (simp add: abs_if field_simps split: if_splits)
  have "get_progress s fs =
             Inr (\<lparr>watched = length ws, remaining = length rs, total = total_shows s,
                   percentage = fl (of_int k / 10)\<rparr>, s, fs)"
    using False assms by (simp add: get_progress_def py_round1_def k_def x_def)
  moreover have "\<exists>j::int. fl (of_int k / 10) = fl (of_int j / 10) \<and>
      \<bar>of_int j / 10 - py_fmul (py_truediv (length ws) (total_shows s)) 100\<bar> \<le> 1 / 20"
    using near unfolding x_def by blast
  ultimately show ?thesis
    using False percent_float_error [OF False, of "length ws"] by simp
qed

theorem get_progress_counts_and_percentage_witness:
  "get_progress (typed [''Oz'', ''Rome'', ''Dark''] [''Rome'', ''Dark'']
       [(''Oz'', ''2024-05-01T20:00:00'')] [(''Oz'', ''2024-05-01T20:00:00'')])
     \<lparr>save_file = None, backup_file = None\<rparr> =
   Inr (\<lparr>watched = 1, remaining = 2, total = 3,
         percentage = 2343279181116211 / 70368744177664\<rparr>,
        typed [''Oz'', ''Rome'', ''Dark''] [''Rome'', ''Dark'']
          [(''Oz'', ''2024-05-01T20:00:00'')] [(''Oz'', ''2024-05-01T20:00:00'')],
        \<lparr>save_file = None, backup_file = None\<rparr>) \<and>
   get_progress (typed [] [] [] []) \<lparr>save_file = None, backup_file = None\<rparr> =
   Inr (\<lparr>watched = 0, remaining = 0, total = 0, percentage = 0\<rparr>,
        typed [] [] [] [], \<lparr>save_file = None, backup_file = None\<rparr>)"
proof -
  let ?s = "typed [''Oz'', ''Rome'', ''Dark''] [''Rome'', ''Dark'']
       [(''Oz'', ''2024-05-01T20:00:00'')] [(''Oz'', ''2024-05-01T20:00:00'')]"
  let ?fs = "\<lparr>save_file = None, backup_file = None\<rparr>"
  have w: "watched_shows ?s = JList [record_of (''Oz'', ''2024-05-01T20:00:00'')]"
    by (simp add: typed_def)
  have r: "remaining_shows ?s = JList [JStr ''Rome'', JStr ''Dark'']"
    by (simp add: typed_def)
  have t: "total_shows ?s = 3" by (simp add: typed_def)
  have direct: "get_progress ?s ?fs =
      Inr (\<lparr>watched = 1, remaining = 2, total = 3,
            percentage = 2343279181116211 / 70368744177664\<rparr>, ?s, ?fs)"
    by code_simp
  from get_progress_counts_and_percentage [OF w r, of ?fs]
  obtain p where g: "get_progress ?s ?fs =
      Inr (\<lparr>watched = length [record_of (''Oz'', ''2024-05-01T20:00:00'')],
            remaining = length [JStr ''Rome'', JStr ''Dark''],
            total = total_shows ?s, percentage = p\<rparr>, ?s, ?fs)"
    by blast
  have "p = 2343279181116211 / 70368744177664"
    using g unfolding direct by simp
  with g have 1: "get_progress ?s ?fs =
      Inr (\<lparr>watched = 1, remaining = 2, total = 3,
            percentage = 2343279181116211 / 70368744177664\<rparr>, ?s, ?fs)"
    by (simp add: t)
  have w0: "watched_shows (typed [] [] [] []) = JList []" by (simp add: typed_def)
  have r0: "remaining_shows (typed [] [] [] []) = JList []" by (simp add: typed_def)
  from get_progress_counts_and_percentage [OF w0 r0, of ?fs]
  have 2: "get_progress (typed [] [] [] []) ?fs =
     Inr (\<lparr>watched = 0, remaining = 0, total = 0, percentage = 0\<rparr>, typed [] [] [] [], ?fs)"
    by (auto simp: typed_def)
  show ?thesis using 1 2 by blast
qed

end
